theory Spec2Isabelle
  imports Main "HOL-Library.Word" "HOL-Library.Signed_Division"
begin

section \<open>The thread pool of Pool.cpp\<close>

text \<open>
  The pool manager of \<^verbatim>\<open>src/lib/source/ThreadPool/Pool.cpp\<close>, embedded as functions
  on an explicit state. One call of a member function is one function application; the
  mutex serialises the bodies, so a body that holds the lock is one atomic step. What the
  other threads do while a caller of \<^verbatim>\<open>Run\<close> is blocked in its wait is an input of
  \<^verbatim>\<open>Run\<close> (a list of wake-ups).

  Assertion failures, the dereference of a null \<^verbatim>\<open>WorkerPtr\<close> and
  \<^verbatim>\<open>erase(end())\<close> are values of the type \<open>fault\<close>; a function that can reach one
  returns \<open>fault + 'a\<close>.
\<close>

subsection \<open>Data\<close>

type_synonym uint64 = "64 word"

text \<open>A worker is known to the pool by the address of its object (never null here).\<close>

type_synonym WorkerPtr = nat

type_synonym HEvent = nat

datatype OVERFLOW_MODE = WAIT | FAIL

text \<open>
  Modelled from the spec: the result of the wait-for-any primitive, which says which of
  the signals fired. \<^verbatim>\<open>Run\<close> builds the array as \<^verbatim>\<open>(StopEvent, FreeEvent)\<close>, so
  \<open>OBJECT_0\<close> is the stop signal and \<open>OBJECT_1\<close> the free signal.
\<close>

datatype WAIT_RESULT = OBJECT_0 | OBJECT_1 | TIMEOUT | FAILED

datatype fault = AssertionFailed | NullDereference | EraseEnd

text \<open>
  Modelled from the spec: the part of a worker the pool acts on. The class \<^verbatim>\<open>Worker\<close>
  is not in this file. \<open>ExpireTimer\<close> is the duration last given to
  \<^verbatim>\<open>SetExpireTimer\<close> (\<open>None\<close> when never armed or cancelled), \<open>StopCalls\<close> counts the
  calls of \<^verbatim>\<open>Worker::Stop\<close>.
\<close>

record Worker =
  ExpireTimer :: "int option"
  StopCalls :: nat

text \<open>
  The members of \<^verbatim>\<open>Pool\<close>, the six process-wide counters, and the store of worker
  objects. \<open>AllW\<close> is the member \<^verbatim>\<open>All\<close>. \<open>Timer\<close> is the due time the shared
  waitable timer is armed with (\<open>None\<close> when cancelled); \<open>FreeEvent\<close> and \<open>StopEvent\<close>
  say whether the signal is raised.
\<close>

record Pool =
  MaxUnusedThreads :: nat
  MaxThreads :: nat
  MaxIdleTime :: int
  Mode :: OVERFLOW_MODE
  Timer :: "int option"
  Owner :: uint64
  Stopping :: bool
  FreeEvent :: bool
  StopEvent :: bool
  AllW :: "WorkerPtr list"
  Unused :: "WorkerPtr list"
  ThreadsTotal :: uint64
  ThreadsUnused :: uint64
  ThreadsStopped :: uint64
  LockedInRun :: uint64
  OnTimerCalls :: uint64
  Errors :: uint64
  Heap :: "WorkerPtr \<Rightarrow> Worker"

text \<open>
  What a call takes from outside the pool:
  \<^item> \<open>NDEBUG\<close>: \<^verbatim>\<open>assert\<close> is compiled out; \<open>DEBUG\<close>: the macro \<^verbatim>\<open>_DEBUG\<close> is defined;
  \<^item> \<open>LONG_BITS\<close>: the width of \<^verbatim>\<open>long\<close> on the target (32 or 64);
  \<^item> \<open>ThreadId\<close>: the result of \<^verbatim>\<open>GetCurrentThreadId()\<close>;
  \<^item> \<open>ElapsedSince\<close>: the result of \<^verbatim>\<open>t0.ElapsedSince()\<close> when \<^verbatim>\<open>Run\<close> returns;
  \<^item> \<open>NewWorker\<close>: the address \<^verbatim>\<open>make_shared<Worker>\<close> returns;
  \<^item> \<open>StartOk\<close>: the result of \<^verbatim>\<open>Start()\<close> on the new worker;
  \<^item> \<open>Invoke\<close>: the handle and the id \<^verbatim>\<open>Invoke(cb, id)\<close> gives on a worker
    (\<open>None\<close> is the null handle);
  \<^item> \<open>TryLock\<close>: the result of \<^verbatim>\<open>Lock.try_lock()\<close> in the timer callback;
  \<^item> \<open>Elapsed\<close>: the time since a worker's expiry timer was armed;
  \<^item> \<open>ExtRefs\<close>: the number of shared references to a worker that are held outside the
    two collections and outside the sweep's own local.
\<close>

record Env =
  NDEBUG :: bool
  DEBUG :: bool
  LONG_BITS :: nat
  ThreadId :: uint64
  ElapsedSince :: uint64
  NewWorker :: WorkerPtr
  StartOk :: bool
  Invoke :: "WorkerPtr \<Rightarrow> HEvent option \<times> uint64"
  TryLock :: bool
  Elapsed :: "WorkerPtr \<Rightarrow> int"
  ExtRefs :: "WorkerPtr \<Rightarrow> nat"

subsection \<open>The worker, as the pool uses it\<close>

text \<open>Modelled from the spec: a worker made by \<^verbatim>\<open>make_shared<Worker>\<close> has no deadline.\<close>

definition new_Worker :: Worker where
  "new_Worker = \<lparr>ExpireTimer = None, StopCalls = 0\<rparr>"

text \<open>Modelled from the spec: \<^verbatim>\<open>Worker::SetExpireTimer\<close> arms the expiry deadline.\<close>

definition SetExpireTimer :: "WorkerPtr \<Rightarrow> int \<Rightarrow> Pool \<Rightarrow> Pool" where
  "SetExpireTimer p d s = s\<lparr>Heap := (Heap s)(p := (Heap s p)\<lparr>ExpireTimer := Some d\<rparr>)\<rparr>"

text \<open>Modelled from the spec: \<^verbatim>\<open>Worker::CancelExpireTimer\<close> cancels the deadline.\<close>

definition CancelExpireTimer :: "WorkerPtr \<Rightarrow> Pool \<Rightarrow> Pool" where
  "CancelExpireTimer p s = s\<lparr>Heap := (Heap s)(p := (Heap s p)\<lparr>ExpireTimer := None\<rparr>)\<rparr>"

text \<open>
  Modelled from the spec: \<^verbatim>\<open>Worker::IsExpired\<close> says whether the deadline has elapsed;
  a deadline of zero is elapsed at once, a cancelled one never.
\<close>

definition IsExpired :: "Env \<Rightarrow> Pool \<Rightarrow> WorkerPtr \<Rightarrow> bool" where
  "IsExpired env s p =
     (case ExpireTimer (Heap s p) of None \<Rightarrow> False | Some d \<Rightarrow> d \<le> Elapsed env p)"

text \<open>Modelled from the spec: \<^verbatim>\<open>Worker::Stop\<close> force-stops the worker.\<close>

definition Worker_Stop :: "WorkerPtr \<Rightarrow> Pool \<Rightarrow> Pool" where
  "Worker_Stop p s = s\<lparr>Heap := (Heap s)(p := (Heap s p)\<lparr>StopCalls := Suc (StopCalls (Heap s p))\<rparr>)\<rparr>"

subsection \<open>The macros\<close>

text \<open>\<^verbatim>\<open>LOCK_GUARD()\<close>: take the mutex and record the owner.\<close>

definition LOCK_GUARD :: "Env \<Rightarrow> Pool \<Rightarrow> Pool" where
  "LOCK_GUARD env s = s\<lparr>Owner := ThreadId env\<rparr>"

text \<open>
  The due time \<^verbatim>\<open>4 * MaxIdleTime / 3\<close> in \<^verbatim>\<open>long\<close> arithmetic: the division
  truncates towards zero. A product that does not fit \<^verbatim>\<open>long\<close> is undefined in C++;
  here it wraps to the width of \<^verbatim>\<open>long\<close> (two's complement), as the usual targets
  compute it, and what is proved of the period is proved for products that fit.
\<close>

definition timer_period :: "Env \<Rightarrow> int \<Rightarrow> int" where
  "timer_period env m = signed_take_bit (LONG_BITS env - 1) (4 * m) sdiv 3"

text \<open>\<^verbatim>\<open>SET_TIMER()\<close>: \<^verbatim>\<open>SetWaitableTimer(Timer, 4 * MaxIdleTime / 3, 0, nullptr)\<close>.\<close>

definition SET_TIMER :: "Env \<Rightarrow> Pool \<Rightarrow> Pool" where
  "SET_TIMER env s = s\<lparr>Timer := Some (timer_period env (MaxIdleTime s))\<rparr>"

subsection \<open>Configuration\<close>

definition Pool_init :: Pool where
  "Pool_init = \<lparr>MaxUnusedThreads = 12, MaxThreads = 100, MaxIdleTime = 3000, Mode = WAIT,
     Timer = None, Owner = 0, Stopping = False, FreeEvent = False, StopEvent = False,
     AllW = [], Unused = [], ThreadsTotal = 0, ThreadsUnused = 0, ThreadsStopped = 0,
     LockedInRun = 0, OnTimerCalls = 0, Errors = 0, Heap = (\<lambda>_. new_Worker)\<rparr>"

definition SetMaxThreads :: "Env \<Rightarrow> nat \<Rightarrow> Pool \<Rightarrow> fault + Pool" where
  "SetMaxThreads env n s =
     (if \<not> NDEBUG env \<and> \<not> n > 0 then Inl AssertionFailed else Inr (s\<lparr>MaxThreads := n\<rparr>))"

definition SetMaxUnusedThreads :: "nat \<Rightarrow> Pool \<Rightarrow> Pool" where
  "SetMaxUnusedThreads n s = s\<lparr>MaxUnusedThreads := n\<rparr>"

definition SetMaxIdleTime :: "int \<Rightarrow> Pool \<Rightarrow> Pool" where
  "SetMaxIdleTime t s = s\<lparr>MaxIdleTime := t\<rparr>"

definition SetOverflowMode :: "OVERFLOW_MODE \<Rightarrow> Pool \<Rightarrow> Pool" where
  "SetOverflowMode mode s = s\<lparr>Mode := mode\<rparr>"

definition SetStopping :: "Env \<Rightarrow> Pool \<Rightarrow> Pool" where
  "SetStopping env s = (LOCK_GUARD env s)\<lparr>Stopping := True, StopEvent := True\<rparr>"

subsection \<open>The eviction sweep\<close>

text \<open>
  The inner \<^verbatim>\<open>for\<close> of \<^verbatim>\<open>Locked_StopExpired\<close>, from position \<open>i\<close> of \<^verbatim>\<open>Unused\<close>:
  a worker that is not expired is passed; the caller, when expired, sets \<open>setTimer\<close> and
  is passed; the first other expired worker ends the scan, and its position is returned.
\<close>

fun scan :: "Env \<Rightarrow> Pool \<Rightarrow> WorkerPtr option \<Rightarrow> WorkerPtr list \<Rightarrow> nat \<Rightarrow> bool \<Rightarrow> nat option \<times> bool" where
  "scan env s caller [] i setTimer = (None, setTimer)"
| "scan env s caller (e # es) i setTimer =
     (if \<not> IsExpired env s e then scan env s caller es (Suc i) setTimer
      else if caller = Some e then scan env s caller es (Suc i) True
      else (Some i, setTimer))"

text \<open>\<^verbatim>\<open>list.erase(it)\<close> with \<open>it\<close> at position \<open>i\<close>.\<close>

definition erase_at :: "nat \<Rightarrow> 'a list \<Rightarrow> 'a list" where
  "erase_at i xs = take i xs @ drop (Suc i) xs"

text \<open>
  \<^verbatim>\<open>e.use_count()\<close>: one reference for each place of the worker in the two collections,
  one for the local \<^verbatim>\<open>e\<close>, and those held elsewhere.
\<close>

definition use_count :: "Env \<Rightarrow> Pool \<Rightarrow> WorkerPtr \<Rightarrow> nat" where
  "use_count env s e = count_list (AllW s) e + count_list (Unused s) e + 1 + ExtRefs env e"

text \<open>
  The body of the inner \<^verbatim>\<open>for\<close> from \<^verbatim>\<open>find_if\<close> to the last assertion, for the
  worker at position \<open>i\<close> of \<^verbatim>\<open>Unused\<close>. \<^verbatim>\<open>find_if\<close> gives the first place of
  \<open>e\<close> in \<^verbatim>\<open>All\<close>; when there is none, the assertion fails, and without assertions
  \<^verbatim>\<open>All.erase(All.end())\<close> is reached.
\<close>

definition evict :: "Env \<Rightarrow> nat \<Rightarrow> Pool \<Rightarrow> fault + Pool" where
  "evict env i s =
     (let e = Unused s ! i in
      if e \<notin> set (AllW s) then Inl (if NDEBUG env then EraseEnd else AssertionFailed)
      else
        let s1 = (Worker_Stop e s)\<lparr>ThreadsStopped := ThreadsStopped s + 1\<rparr> in
        if \<not> NDEBUG env \<and> use_count env s1 e \<noteq> 3 then Inl AssertionFailed
        else
          let s2 = s1\<lparr>Unused := erase_at i (Unused s1)\<rparr>;
              s3 = s2\<lparr>ThreadsUnused := of_nat (length (Unused s2))\<rparr>;
              s4 = s3\<lparr>AllW := remove1 e (AllW s3)\<rparr>;
              s5 = s4\<lparr>ThreadsTotal := of_nat (length (AllW s4))\<rparr>
          in if \<not> NDEBUG env \<and> use_count env s5 e \<noteq> 1 then Inl AssertionFailed
             else Inr s5)"

text \<open>
  The outer \<^verbatim>\<open>for (bool cont = true; cont;)\<close>: one scan; when it found a worker to
  evict, the eviction (\<^verbatim>\<open>cont = true; break\<close>) and the next round.
\<close>

function sweep :: "Env \<Rightarrow> WorkerPtr option \<Rightarrow> bool \<Rightarrow> Pool \<Rightarrow> fault + (bool \<times> Pool)" where
  "sweep env caller setTimer s =
     (case scan env s caller (Unused s) 0 setTimer of
        (None, setTimer') \<Rightarrow> Inr (setTimer', s)
      | (Some i, setTimer') \<Rightarrow>
          (case evict env i s of
             Inl f \<Rightarrow> Inl f
           | Inr s' \<Rightarrow> sweep env caller setTimer' s'))"
  by pat_completeness auto
termination
proof (relation "measure (\<lambda>(env, caller, setTimer, s). length (Unused s))")
  show "wf (measure (\<lambda>(env, caller, setTimer, s). length (Unused s)))"
    by simp
next
  fix env :: Env and caller setTimer s x1 setTimer' i s'
  assume "(x1, setTimer') = scan env s caller (Unused s) 0 setTimer" "x1 = Some i"
    and ev: "evict env i s = Inr s'"
  then have sc: "scan env s caller (Unused s) 0 setTimer = (Some i, setTimer')"
    by simp
  have "j < k + length es" if "scan env s caller es k st0 = (Some j, st1)" for es k st0 j st1
    using that
  proof (induction es arbitrary: k st0)
    case Nil
    then show ?case by simp
  next
    case (Cons e es)
    show ?case
    proof (cases "\<not> IsExpired env s e \<or> caller = Some e")
      case True
      with Cons.prems obtain st2 where "scan env s caller es (Suc k) st2 = (Some j, st1)"
        by (auto split: if_splits)
      from Cons.IH [OF this] show ?thesis by simp
    next
      case False
      with Cons.prems show ?thesis by simp
    qed
  qed
  from this [OF sc] have "i < length (Unused s)"
    by simp
  moreover from ev have "Unused s' = erase_at i (Unused s)"
    by (auto simp: evict_def Let_def Worker_Stop_def split: if_splits)
  ultimately show "((env, caller, setTimer', s'), (env, caller, setTimer, s))
      \<in> measure (\<lambda>(env, caller, setTimer, s). length (Unused s))"
    by (simp add: erase_at_def)
qed

declare sweep.simps [simp del]

definition Locked_StopExpired :: "Env \<Rightarrow> WorkerPtr option \<Rightarrow> Pool \<Rightarrow> fault + Pool" where
  "Locked_StopExpired env caller s0 =
     (let s = s0\<lparr>Timer := None\<rparr> in
      if Stopping s then Inr s
      else
        (case sweep env caller False s of
           Inl f \<Rightarrow> Inl f
         | Inr (setTimer, s') \<Rightarrow> Inr (if setTimer then SET_TIMER env s' else s')))"

subsection \<open>Taking and returning workers\<close>

text \<open>
  \<^verbatim>\<open>PopUnused(allCount)\<close>: the result is the worker taken from the front of
  \<^verbatim>\<open>Unused\<close> (\<open>None\<close> is the null pointer), the value stored in \<open>allCount\<close>, and the
  state.
\<close>

definition PopUnused :: "Env \<Rightarrow> Pool \<Rightarrow> fault + (WorkerPtr option \<times> nat \<times> Pool)" where
  "PopUnused env s0 =
     (let s = LOCK_GUARD env s0;
          allCount = length (AllW s)
      in case Unused s of
           [] \<Rightarrow> Inr (None, allCount, s)
         | t # rest \<Rightarrow>
             (let s1 = s\<lparr>Unused := rest\<rparr>;
                  s2 = s1\<lparr>ThreadsUnused := of_nat (length (Unused s1))\<rparr>;
                  s3 = CancelExpireTimer t s2
              in case Locked_StopExpired env None s3 of
                   Inl f \<Rightarrow> Inl f
                 | Inr s4 \<Rightarrow> Inr (Some t, allCount, s4)))"

text \<open>The first argument of \<^verbatim>\<open>Push\<close> is a reference to one of the two collections.\<close>

datatype WorkerList = RefAll | RefUnused

definition Push :: "Env \<Rightarrow> WorkerList \<Rightarrow> WorkerPtr \<Rightarrow> Pool \<Rightarrow> Pool" where
  "Push env list t s0 =
     (let s = LOCK_GUARD env s0;
          s1 = (case list of
                  RefAll \<Rightarrow> s\<lparr>AllW := AllW s @ [t]\<rparr>
                | RefUnused \<Rightarrow> s\<lparr>Unused := Unused s @ [t]\<rparr>);
          s2 = s1\<lparr>ThreadsUnused := of_nat (length (Unused s1))\<rparr>
      in s2\<lparr>ThreadsTotal := of_nat (length (AllW s2))\<rparr>)"

subsection \<open>Admission and dispatch\<close>

text \<open>
  A wake-up of a caller blocked in \<^verbatim>\<open>WaitForMultipleObjects(ev, false)\<close>: the result of
  the wait, and what the other threads did to the pool until then.
\<close>

type_synonym wakeup = "WAIT_RESULT \<times> (Pool \<Rightarrow> Pool)"

text \<open>
  How the \<^verbatim>\<open>while (!Stopping)\<close> loop of \<^verbatim>\<open>Run\<close> ends: by one of its
  \<^verbatim>\<open>return nullptr\<close>, in a wait that no wake-up ends, or by leaving the loop with the
  value of \<open>t\<close> (\<open>None\<close> is the null pointer).
\<close>

datatype LoopExit = ReturnNull Pool | BlockedWait Pool | LoopDone "WorkerPtr option" Pool

definition elapsed :: "Env \<Rightarrow> Pool \<Rightarrow> Pool" where
  "elapsed env s = s\<lparr>LockedInRun := LockedInRun s + ElapsedSince env\<rparr>"

fun Run_loop :: "Env \<Rightarrow> wakeup list \<Rightarrow> Pool \<Rightarrow> fault + LoopExit" where
  "Run_loop env ws s =
     (if Stopping s then Inr (LoopDone None s)
      else
        (case PopUnused env s of
           Inl f \<Rightarrow> Inl f
         | Inr (Some t, allSize, s1) \<Rightarrow> Inr (LoopDone (Some t) s1)
         | Inr (None, allSize, s1) \<Rightarrow>
             if allSize \<ge> MaxThreads s1 then
               if Mode s1 = FAIL then
                 Inr (ReturnNull (elapsed env (s1\<lparr>Errors := Errors s1 + 1\<rparr>)))
               else
                 (case ws of
                    [] \<Rightarrow> Inr (BlockedWait s1)
                  | (rc, others) # ws' \<Rightarrow>
                      if rc = OBJECT_0 then Inr (ReturnNull (elapsed env (others s1)))
                      else Run_loop env ws' (others s1))
             else
               (let t = NewWorker env;
                    s2 = s1\<lparr>Heap := (Heap s1)(t := new_Worker)\<rparr>
                in if \<not> StartOk env then
                     Inr (ReturnNull (elapsed env (s2\<lparr>Errors := Errors s2 + 1\<rparr>)))
                   else Inr (LoopDone (Some t) (Push env RefAll t s2)))))"

declare Run_loop.simps [simp del]

text \<open>
  What a call of \<^verbatim>\<open>Run\<close> comes to: it returns a handle (\<open>None\<close> is the null handle, the
  refusal) and the content of \<^verbatim>\<open>*pid\<close> (\<open>None\<close> when \<open>pid\<close> is null), or it stays
  blocked in its wait.
\<close>

datatype RunResult = Returned "HEvent option" "uint64 option" Pool | Blocked Pool

text \<open>\<open>pid\<close> says whether the pointer \<^verbatim>\<open>pid\<close> is non-null.\<close>

definition Run :: "Env \<Rightarrow> wakeup list \<Rightarrow> bool \<Rightarrow> Pool \<Rightarrow> fault + RunResult" where
  "Run env ws pid s0 =
     (let pid0 = (if pid then Some 0 else None)
      in case Run_loop env ws s0 of
           Inl f \<Rightarrow> Inl f
         | Inr (ReturnNull s) \<Rightarrow> Inr (Returned None pid0 s)
         | Inr (BlockedWait s) \<Rightarrow> Inr (Blocked s)
         | Inr (LoopDone None s) \<Rightarrow> Inl NullDereference
         | Inr (LoopDone (Some t) s) \<Rightarrow>
             (case Invoke env t of
                (Some h, id') \<Rightarrow>
                  Inr (Returned (Some h) (if pid then Some id' else None) (elapsed env s))
              | (None, id') \<Rightarrow>
                  (let s1 = Push env RefUnused t s;
                       s2 = s1\<lparr>Errors := Errors s1 + 1\<rparr>
                   in Inr (Returned None pid0 (elapsed env s2)))))"

subsection \<open>Shutdown and shrinking\<close>

text \<open>The loop \<^verbatim>\<open>for (auto& e : All) { e->Stop(); ThreadsStopped++; }\<close>.\<close>

fun stop_all :: "WorkerPtr list \<Rightarrow> Pool \<Rightarrow> Pool" where
  "stop_all [] s = s"
| "stop_all (e # es) s = stop_all es ((Worker_Stop e s)\<lparr>ThreadsStopped := ThreadsStopped s + 1\<rparr>)"

text \<open>\<^verbatim>\<open>Stop()\<close> up to its assertion: the state the assertion is evaluated in.\<close>

definition Stop_locked :: "Env \<Rightarrow> Pool \<Rightarrow> Pool" where
  "Stop_locked env s0 =
     (let s1 = SetStopping env s0;
          s2 = stop_all (AllW s1) s1
      in LOCK_GUARD env s2)"

text \<open>\<^verbatim>\<open>Stop()\<close> after its assertion: the two collections and their counters are cleared.\<close>

definition Stop_clear :: "Pool \<Rightarrow> Pool" where
  "Stop_clear s = s\<lparr>Unused := [], ThreadsUnused := 0, AllW := [], ThreadsTotal := 0\<rparr>"

definition Stop :: "Env \<Rightarrow> Pool \<Rightarrow> fault + Pool" where
  "Stop env s0 =
     (let s = Stop_locked env s0
      in if \<not> NDEBUG env \<and> length (AllW s) \<noteq> length (Unused s) then Inl AssertionFailed
         else Inr (Stop_clear s))"

text \<open>The loop \<^verbatim>\<open>for (auto& e : Unused) e->SetExpireTimer(0);\<close>.\<close>

fun expire_all :: "WorkerPtr list \<Rightarrow> Pool \<Rightarrow> Pool" where
  "expire_all [] s = s"
| "expire_all (e # es) s = expire_all es (SetExpireTimer e 0 s)"

definition StopUnused :: "Env \<Rightarrow> Pool \<Rightarrow> fault + Pool" where
  "StopUnused env s0 =
     (let s = LOCK_GUARD env s0
      in Locked_StopExpired env None (expire_all (Unused s) s))"

subsection \<open>The callbacks\<close>

text \<open>
  \<^verbatim>\<open>Locked_Find(p, all, unused)\<close>: whether \<open>p\<close> is in \<^verbatim>\<open>All\<close>, and whether it is in
  \<^verbatim>\<open>Unused\<close>.
\<close>

definition Locked_Find :: "WorkerPtr \<Rightarrow> Pool \<Rightarrow> bool \<times> bool" where
  "Locked_Find p s = (p \<in> set (AllW s), p \<in> set (Unused s))"

definition CB_OnTimer :: "Env \<Rightarrow> WorkerPtr \<Rightarrow> Pool \<Rightarrow> fault + Pool" where
  "CB_OnTimer env p s0 =
     (let s = s0\<lparr>OnTimerCalls := OnTimerCalls s0 + 1\<rparr>
      in if TryLock env then Locked_StopExpired env (Some p) (s\<lparr>Owner := ThreadId env\<rparr>)
         else Inr s)"

text \<open>
  \<^verbatim>\<open>CB_OnFree(p)\<close>. The block under \<^verbatim>\<open>#ifdef _DEBUG\<close> is there when \<^verbatim>\<open>_DEBUG\<close> is
  defined, and its \<^verbatim>\<open>assert\<close> is checked unless \<^verbatim>\<open>NDEBUG\<close> is defined.
\<close>

definition CB_OnFree :: "Env \<Rightarrow> WorkerPtr \<Rightarrow> Pool \<Rightarrow> fault + Pool" where
  "CB_OnFree env p s0 =
     (let s = LOCK_GUARD env s0;
          (all, unused) = Locked_Find p s
      in if DEBUG env \<and> \<not> NDEBUG env \<and> \<not> (all = True \<and> unused = False)
         then Inl AssertionFailed
         else
           (let s1 = (if length (Unused s) + 1 > MaxUnusedThreads s
                      then SET_TIMER env (SetExpireTimer p (MaxIdleTime s) s) else s);
                s2 = s1\<lparr>Unused := Unused s1 @ [p]\<rparr>
            in Inr (s2\<lparr>FreeEvent := True\<rparr>)))"

subsection \<open>The invariant of the two collections\<close>

text \<open>
  Every worker in \<^verbatim>\<open>Unused\<close> is in \<^verbatim>\<open>All\<close>, and no worker is twice in either
  collection.
\<close>

definition pool_inv :: "Pool \<Rightarrow> bool" where
  "pool_inv s = (distinct (AllW s) \<and> distinct (Unused s) \<and> set (Unused s) \<subseteq> set (AllW s))"

text \<open>
  What a caller of \<^verbatim>\<open>Run\<close> relies on from the threads that run while it waits: they
  keep the invariant, and they do not put the address of a worker that does not exist yet
  into \<^verbatim>\<open>All\<close>.
\<close>

definition rely :: "Env \<Rightarrow> wakeup \<Rightarrow> bool" where
  "rely env w =
     (\<forall>s. pool_inv s \<and> NewWorker env \<notin> set (AllW s) \<longrightarrow>
          pool_inv (snd w s) \<and> NewWorker env \<notin> set (AllW (snd w s)))"

text \<open>The worker a loop exit carries, and the state of a loop exit and of a result.\<close>

fun obtained :: "LoopExit \<Rightarrow> WorkerPtr option" where
  "obtained (LoopDone t s) = t"
| "obtained (ReturnNull s) = None"
| "obtained (BlockedWait s) = None"

fun LoopExit_pool :: "LoopExit \<Rightarrow> Pool" where
  "LoopExit_pool (LoopDone t s) = s"
| "LoopExit_pool (ReturnNull s) = s"
| "LoopExit_pool (BlockedWait s) = s"

fun RunResult_pool :: "RunResult \<Rightarrow> Pool" where
  "RunResult_pool (Returned h i s) = s"
| "RunResult_pool (Blocked s) = s"

text \<open>
  What another thread does to the pool when its worker \<open>p\<close> announces that it is idle:
  the idle callback, which leaves the pool as it is when its assertion fails.
\<close>

definition freed :: "Env \<Rightarrow> WorkerPtr \<Rightarrow> Pool \<Rightarrow> Pool" where
  "freed env p s = (case CB_OnFree env p s of Inl f \<Rightarrow> s | Inr s' \<Rightarrow> s')"

subsection \<open>Example states\<close>

text \<open>
  A build with assertions, 64-bit \<^verbatim>\<open>long\<close>; the next worker is made at address 4,
  starts, and every worker accepts a task (handle 9, id 42).
\<close>

definition env_ex :: Env where
  "env_ex = \<lparr>NDEBUG = False, DEBUG = True, LONG_BITS = 64, ThreadId = 7, ElapsedSince = 5,
     NewWorker = 4, StartOk = True, Invoke = (\<lambda>p. (Some 9, 42)), TryLock = True,
     Elapsed = (\<lambda>p. 0), ExtRefs = (\<lambda>p. 0)\<rparr>"

text \<open>The same, but no worker accepts a task.\<close>

definition env_refusing :: Env where
  "env_refusing = env_ex\<lparr>Invoke := (\<lambda>p. (None, 0))\<rparr>"

text \<open>A build without assertions: \<^verbatim>\<open>NDEBUG\<close> is defined and \<^verbatim>\<open>_DEBUG\<close> is not.\<close>

definition env_release :: Env where
  "env_release = env_ex\<lparr>NDEBUG := True, DEBUG := False\<rparr>"

text \<open>The environment when 4000 milliseconds have passed since the deadlines were armed.\<close>

definition env_later :: Env where
  "env_later = env_ex\<lparr>Elapsed := (\<lambda>p. 4000)\<rparr>"


text \<open>Two workers, both idle; the pool is at its capacity of two.\<close>

definition pool_idle :: Pool where
  "pool_idle = Pool_init\<lparr>MaxThreads := 2, AllW := [1, 2], Unused := [1, 2],
     ThreadsTotal := 2, ThreadsUnused := 2\<rparr>"

text \<open>Two workers, both busy; the pool is at its capacity of two.\<close>

definition pool_busy :: Pool where
  "pool_busy = Pool_init\<lparr>MaxThreads := 2, AllW := [1, 2], Unused := [], ThreadsTotal := 2\<rparr>"

text \<open>
  Three workers; 1 and 2 are idle with a deadline of zero (elapsed), 3 is busy; the timer
  is armed.
\<close>

definition pool_expiring :: Pool where
  "pool_expiring = Pool_init\<lparr>MaxUnusedThreads := 0, Timer := Some 4000,
     AllW := [1, 2, 3], Unused := [1, 2], ThreadsTotal := 3, ThreadsUnused := 2,
     Heap := (\<lambda>p. if p = 1 \<or> p = 2 then \<lparr>ExpireTimer = Some 0, StopCalls = 0\<rparr> else new_Worker)\<rparr>"

text \<open>One busy worker, no idle worker kept warm, an idle duration of one millisecond.\<close>

definition pool_short :: Pool where
  "pool_short = Pool_init\<lparr>MaxUnusedThreads := 0, MaxIdleTime := 1, AllW := [1],
     ThreadsTotal := 1\<rparr>"

section \<open>Properties\<close>

subsection \<open>Erasing one position\<close>

lemma erase_at_split:
  "i < length xs \<Longrightarrow> xs = take i xs @ xs ! i # drop (Suc i) xs"
  by (rule id_take_nth_drop)

lemma count_erase_at:
  assumes "i < length xs" "xs ! i \<noteq> x"
  shows "count_list (erase_at i xs) x = count_list xs x"
proof -
  have "count_list xs x = count_list (take i xs @ xs ! i # drop (Suc i) xs) x"
    using erase_at_split [OF assms(1)] by simp
  with assms(2) show ?thesis
    by (simp add: erase_at_def)
qed

lemma set_erase_at_subset: "set (erase_at i xs) \<subseteq> set xs"
  unfolding erase_at_def using set_take_subset [of i xs] set_drop_subset [of "Suc i" xs] by auto

lemma distinct_erase_at:
  assumes "distinct xs" "i < length xs"
  shows "distinct (erase_at i xs) \<and> xs ! i \<notin> set (erase_at i xs)"
proof -
  have "distinct (take i xs @ xs ! i # drop (Suc i) xs)"
    using erase_at_split [OF assms(2)] assms(1) by simp
  then show ?thesis
    by (auto simp: erase_at_def)
qed

subsection \<open>The scan\<close>

lemma scan_None:
  "scan env s caller es i st = (None, st') \<Longrightarrow>
     (\<forall>e\<in>set es. IsExpired env s e \<longrightarrow> caller = Some e) \<and>
     (st' = (st \<or> (\<exists>e\<in>set es. IsExpired env s e \<and> caller = Some e)))"
proof (induction es arbitrary: i st)
  case Nil
  then show ?case by simp
next
  case (Cons e es)
  show ?case
  proof (cases "IsExpired env s e")
    case False
    with Cons.prems have "scan env s caller es (Suc i) st = (None, st')" by simp
    from Cons.IH [OF this] False show ?thesis by auto
  next
    case True
    with Cons.prems have c: "caller = Some e" by (auto split: if_splits)
    with True Cons.prems have "scan env s caller es (Suc i) True = (None, st')" by simp
    from Cons.IH [OF this] True c show ?thesis by auto
  qed
qed

lemma scan_Some:
  "scan env s caller es i st = (Some j, st') \<Longrightarrow>
     i \<le> j \<and> j < i + length es \<and> IsExpired env s (es ! (j - i)) \<and> caller \<noteq> Some (es ! (j - i))"
proof (induction es arbitrary: i st)
  case Nil
  then show ?case by simp
next
  case (Cons e es)
  show ?case
  proof (cases "\<not> IsExpired env s e \<or> caller = Some e")
    case True
    with Cons.prems obtain st0 where "scan env s caller es (Suc i) st0 = (Some j, st')"
      by (auto split: if_splits)
    from Cons.IH [OF this] show ?thesis by (auto simp: Suc_diff_le nth_Cons')
  next
    case False
    with Cons.prems show ?thesis by auto
  qed
qed

lemma scan_mono: "scan env s caller es i st = (Some j, st') \<Longrightarrow> st \<longrightarrow> st'"
  by (induction es arbitrary: i st) (auto split: if_splits)

subsection \<open>One eviction\<close>

lemma evict_Inr:
  assumes "evict env i s = Inr s'"
  shows "Unused s' = erase_at i (Unused s)"
    and "AllW s' = remove1 (Unused s ! i) (AllW s)"
    and "Unused s ! i \<in> set (AllW s)"
    and "x \<noteq> Unused s ! i \<Longrightarrow> Heap s' x = Heap s x"
    and "ExpireTimer (Heap s' x) = ExpireTimer (Heap s x)"
    and "MaxIdleTime s' = MaxIdleTime s"
    and "Timer s' = Timer s"
  using assms by (auto simp: evict_def Let_def Worker_Stop_def split: if_splits)

lemma evict_IsExpired: "evict env i s = Inr s' \<Longrightarrow> IsExpired env s' x = IsExpired env s x"
  by (simp add: IsExpired_def evict_Inr(5))

lemma evict_inv:
  assumes "evict env i s = Inr s'" "i < length (Unused s)" "pool_inv s"
  shows "pool_inv s'"
proof -
  let ?e = "Unused s ! i"
  from assms(3) have d: "distinct (AllW s)" "distinct (Unused s)" "set (Unused s) \<subseteq> set (AllW s)"
    by (simp_all add: pool_inv_def)
  have 1: "distinct (erase_at i (Unused s))" "?e \<notin> set (erase_at i (Unused s))"
    using distinct_erase_at [OF d(2) assms(2)] by simp_all
  have 2: "set (remove1 ?e (AllW s)) = set (AllW s) - {?e}"
    using d(1) by (rule set_remove1_eq)
  have 3: "set (erase_at i (Unused s)) \<subseteq> set (AllW s) - {?e}"
    using set_erase_at_subset [of i "Unused s"] d(3) 1(2) by auto
  show ?thesis
    using 1 2 3 d(1) by (simp add: pool_inv_def evict_Inr(1,2) [OF assms(1)])
qed

subsection \<open>The sweep\<close>

lemma sweep_None:
  "scan env s caller (Unused s) 0 st = (None, st') \<Longrightarrow> sweep env caller st s = Inr (st', s)"
  by (simp add: sweep.simps)

lemma sweep_Some:
  "scan env s caller (Unused s) 0 st = (Some i, st') \<Longrightarrow>
   sweep env caller st s =
     (case evict env i s of Inl f \<Rightarrow> Inl f | Inr s1 \<Rightarrow> sweep env caller st' s1)"
  by (simp add: sweep.simps)

lemma sweep_cases:
  assumes "sweep env caller st s = Inr (st', s')"
  obtains (final) "scan env s caller (Unused s) 0 st = (None, st')" "s' = s"
  | (step) i st1 s1 where "scan env s caller (Unused s) 0 st = (Some i, st1)"
      "evict env i s = Inr s1" "sweep env caller st1 s1 = Inr (st', s')"
proof (cases "scan env s caller (Unused s) 0 st")
  case (Pair r st1)
  show ?thesis
  proof (cases r)
    case None
    with Pair have sc: "scan env s caller (Unused s) 0 st = (None, st1)" by simp
    from assms sweep_None [OF sc] have "st1 = st'" "s' = s" by simp_all
    with sc that(1) show ?thesis by simp
  next
    case (Some i)
    with Pair have sc: "scan env s caller (Unused s) 0 st = (Some i, st1)" by simp
    from assms have ev: "(case evict env i s of Inl f \<Rightarrow> Inl f
        | Inr s1 \<Rightarrow> sweep env caller st1 s1) = Inr (st', s')"
      unfolding sweep_Some [OF sc] .
    show ?thesis
    proof (cases "evict env i s")
      case (Inl f)
      with ev show ?thesis by simp
    next
      case (Inr s1)
      with ev have "sweep env caller st1 s1 = Inr (st', s')" by simp
      with sc Inr that(2) show ?thesis by blast
    qed
  qed
qed

lemma sweep_inv:
  "sweep env caller st s = Inr (st', s') \<Longrightarrow> pool_inv s \<Longrightarrow> pool_inv s'"
proof (induction env caller st s rule: sweep.induct)
  case (1 env caller st s)
  from "1.prems"(1) show ?case
  proof (cases rule: sweep_cases)
    case final
    with "1.prems" show ?thesis by simp
  next
    case (step i st1 s1)
    from step(1) have "i < length (Unused s)"
      using scan_Some by fastforce
    then have "pool_inv s1"
      using evict_inv [OF step(2)] "1.prems"(2) by simp
    with "1.IH" [OF step(1) [symmetric] refl step(2) step(3)] show ?thesis .
  qed
qed


lemma evict_keep:
  assumes "evict env i s = Inr s'" "i < length (Unused s)" "Unused s ! i \<noteq> x"
  shows "count_list (Unused s') x = count_list (Unused s) x"
    and "count_list (AllW s') x = count_list (AllW s) x"
    and "Heap s' x = Heap s x"
  using assms count_erase_at [of i "Unused s" x]
  by (simp_all add: evict_Inr(1,2) [OF assms(1)] evict_Inr(4) [OF assms(1)] count_list_remove1)

lemma sweep_keep:
  "sweep env caller st s = Inr (st', s') \<Longrightarrow> caller = Some x \<or> x \<notin> set (Unused s) \<Longrightarrow>
     count_list (Unused s') x = count_list (Unused s) x \<and>
     count_list (AllW s') x = count_list (AllW s) x \<and>
     Heap s' x = Heap s x"
proof (induction env caller st s rule: sweep.induct)
  case (1 env caller st s)
  from "1.prems"(1) show ?case
  proof (cases rule: sweep_cases)
    case final
    then show ?thesis by simp
  next
    case (step i st1 s1)
    from scan_Some [OF step(1)]
    have i: "i < length (Unused s)" and c: "caller \<noteq> Some (Unused s ! i)"
      by simp_all
    from i have "Unused s ! i \<in> set (Unused s)" by simp
    with c "1.prems"(2) have ne: "Unused s ! i \<noteq> x" by auto
    note k = evict_keep [OF step(2) i ne]
    from k(1) "1.prems"(2) have "caller = Some x \<or> x \<notin> set (Unused s1)"
      by (auto simp: count_list_0_iff [symmetric])
    from "1.IH" [OF step(1) [symmetric] refl step(2) step(3) this] k show ?thesis
      by simp
  qed
qed

lemma sweep_fields:
  "sweep env caller st s = Inr (st', s') \<Longrightarrow>
     MaxIdleTime s' = MaxIdleTime s \<and> Timer s' = Timer s \<and>
     set (AllW s') \<subseteq> set (AllW s) \<and> set (Unused s') \<subseteq> set (Unused s) \<and>
     (\<forall>x. IsExpired env s' x = IsExpired env s x) \<and> (st \<longrightarrow> st')"
proof (induction env caller st s rule: sweep.induct)
  case (1 env caller st s)
  from "1.prems"(1) show ?case
  proof (cases rule: sweep_cases)
    case final
    with scan_None [OF final(1)] show ?thesis by auto
  next
    case (step i st1 s1)
    have "st \<longrightarrow> st1"
      using scan_mono [OF step(1)] .
    moreover have "set (AllW s1) \<subseteq> set (AllW s)" "set (Unused s1) \<subseteq> set (Unused s)"
      using set_remove1_subset [of "Unused s ! i" "AllW s"] set_erase_at_subset [of i "Unused s"]
      by (simp_all add: evict_Inr(1,2) [OF step(2)])
    ultimately show ?thesis
      using "1.IH" [OF step(1) [symmetric] refl step(2) step(3)]
        evict_Inr(6,7) [OF step(2)] evict_IsExpired [OF step(2)]
      by auto
  qed
qed

lemma sweep_final:
  "sweep env caller st s = Inr (st', s') \<Longrightarrow>
     (\<forall>e\<in>set (Unused s'). IsExpired env s' e \<longrightarrow> caller = Some e) \<and>
     ((\<exists>e\<in>set (Unused s'). IsExpired env s' e \<and> caller = Some e) \<longrightarrow> st')"
proof (induction env caller st s rule: sweep.induct)
  case (1 env caller st s)
  from "1.prems"(1) show ?case
  proof (cases rule: sweep_cases)
    case final
    with scan_None [OF final(1)] show ?thesis by auto
  next
    case (step i st1 s1)
    from "1.IH" [OF step(1) [symmetric] refl step(2) step(3)] show ?thesis .
  qed
qed


subsection \<open>Locked sections\<close>

lemma Locked_StopExpired_cases:
  assumes "Locked_StopExpired env caller s = Inr s'"
  obtains (stopping) "Stopping s" "s' = s\<lparr>Timer := None\<rparr>"
  | (swept) st' s1 where "\<not> Stopping s" "sweep env caller False (s\<lparr>Timer := None\<rparr>) = Inr (st', s1)"
      "s' = (if st' then SET_TIMER env s1 else s1)"
  using assms
  by (auto simp: Locked_StopExpired_def Let_def split: if_splits sum.splits)

lemma pool_inv_cong:
  "AllW s' = AllW s \<Longrightarrow> Unused s' = Unused s \<Longrightarrow> pool_inv s' = pool_inv s"
  by (simp add: pool_inv_def)

lemma Locked_StopExpired_inv:
  assumes "Locked_StopExpired env caller s = Inr s'" "pool_inv s"
  shows "pool_inv s'"
  using assms(1)
proof (cases rule: Locked_StopExpired_cases)
  case stopping
  with assms(2) show ?thesis by (simp add: pool_inv_def)
next
  case (swept st' s1)
  from assms(2) have "pool_inv (s\<lparr>Timer := None\<rparr>)" by (simp add: pool_inv_def)
  from sweep_inv [OF swept(2) this] swept(3) show ?thesis
    by (simp add: pool_inv_def SET_TIMER_def)
qed

lemma Locked_StopExpired_keep:
  assumes "Locked_StopExpired env caller s = Inr s'" "caller = Some x \<or> x \<notin> set (Unused s)"
  shows "count_list (Unused s') x = count_list (Unused s) x \<and>
         count_list (AllW s') x = count_list (AllW s) x \<and>
         Heap s' x = Heap s x"
  using assms(1)
proof (cases rule: Locked_StopExpired_cases)
  case stopping
  then show ?thesis by simp
next
  case (swept st' s1)
  from assms(2) have "caller = Some x \<or> x \<notin> set (Unused (s\<lparr>Timer := None\<rparr>))" by simp
  from sweep_keep [OF swept(2) this] swept(3) show ?thesis
    by (simp add: SET_TIMER_def)
qed

lemma Locked_StopExpired_subset:
  assumes "Locked_StopExpired env caller s = Inr s'"
  shows "set (AllW s') \<subseteq> set (AllW s) \<and> set (Unused s') \<subseteq> set (Unused s) \<and>
         MaxIdleTime s' = MaxIdleTime s"
  using assms(1)
proof (cases rule: Locked_StopExpired_cases)
  case stopping
  then show ?thesis by simp
next
  case (swept st' s1)
  from sweep_fields [OF swept(2)] swept(3) show ?thesis
    by (simp add: SET_TIMER_def)
qed

lemma PopUnused_cases:
  assumes "PopUnused env s = Inr (r, n, s')"
  obtains (empty) "Unused s = []" "r = None" "n = length (AllW s)" "s' = LOCK_GUARD env s"
  | (popped) t rest where "Unused s = t # rest" "r = Some t" "n = length (AllW s)"
      "Locked_StopExpired env None
         (CancelExpireTimer t ((LOCK_GUARD env s)\<lparr>Unused := rest, ThreadsUnused := of_nat (length rest)\<rparr>))
       = Inr s'"
  using assms
  by (auto simp: PopUnused_def Let_def LOCK_GUARD_def split: list.splits sum.splits)

lemma PopUnused_inv:
  assumes "PopUnused env s = Inr (r, n, s')" "pool_inv s"
  shows "pool_inv s'"
    and "set (AllW s') \<subseteq> set (AllW s)"
    and "\<And>t. r = Some t \<Longrightarrow> t \<in> set (AllW s') \<and> t \<notin> set (Unused s')"
proof -
  have "pool_inv s' \<and> set (AllW s') \<subseteq> set (AllW s) \<and>
        (\<forall>t. r = Some t \<longrightarrow> t \<in> set (AllW s') \<and> t \<notin> set (Unused s'))"
    using assms(1)
  proof (cases rule: PopUnused_cases)
    case empty
    with assms(2) show ?thesis by (simp add: pool_inv_def LOCK_GUARD_def)
  next
    case (popped t rest)
    let ?s = "CancelExpireTimer t ((LOCK_GUARD env s)\<lparr>Unused := rest, ThreadsUnused := of_nat (length rest)\<rparr>)"
    from assms(2) popped(1) have i: "pool_inv ?s" and t: "t \<in> set (AllW ?s)" "t \<notin> set (Unused ?s)"
      by (simp_all add: pool_inv_def CancelExpireTimer_def LOCK_GUARD_def)
    have a: "AllW ?s = AllW s"
      by (simp add: CancelExpireTimer_def LOCK_GUARD_def)
    note k = Locked_StopExpired_keep [OF popped(4) disjI2 [OF t(2)]]
    from k t(2) have "count_list (Unused s') t = 0"
      by simp
    then have 1: "t \<notin> set (Unused s')"
      by (simp add: count_list_0_iff)
    from t(1) have "count_list (AllW ?s) t \<noteq> 0"
      by (simp add: count_list_0_iff)
    with k have "count_list (AllW s') t \<noteq> 0"
      by simp
    then have 2: "t \<in> set (AllW s')"
      by (simp add: count_list_0_iff)
    from 1 2 Locked_StopExpired_subset [OF popped(4)] Locked_StopExpired_inv [OF popped(4) i]
      popped(2) a
    show ?thesis by simp
  qed
  then show "pool_inv s'" "set (AllW s') \<subseteq> set (AllW s)"
    "\<And>t. r = Some t \<Longrightarrow> t \<in> set (AllW s') \<and> t \<notin> set (Unused s')" by simp_all
qed

lemma Push_RefAll_inv:
  "pool_inv s \<Longrightarrow> t \<notin> set (AllW s) \<Longrightarrow> pool_inv (Push env RefAll t s)"
  by (auto simp: pool_inv_def Push_def Let_def LOCK_GUARD_def)

lemma Push_RefUnused_inv:
  "pool_inv s \<Longrightarrow> t \<in> set (AllW s) \<Longrightarrow> t \<notin> set (Unused s) \<Longrightarrow> pool_inv (Push env RefUnused t s)"
  by (auto simp: pool_inv_def Push_def Let_def LOCK_GUARD_def)

lemma CB_OnFree_inv:
  "CB_OnFree env p s = Inr s' \<Longrightarrow> pool_inv s \<Longrightarrow> p \<in> set (AllW s) \<Longrightarrow> p \<notin> set (Unused s) \<Longrightarrow>
   pool_inv s'"
  by (auto simp: CB_OnFree_def Let_def LOCK_GUARD_def SET_TIMER_def SetExpireTimer_def pool_inv_def
      split: if_splits prod.splits)

lemma CB_OnFree_checked:
  "CB_OnFree env p s = Inr s' \<Longrightarrow> DEBUG env \<Longrightarrow> \<not> NDEBUG env \<Longrightarrow>
   p \<in> set (AllW s) \<and> p \<notin> set (Unused s)"
  by (auto simp: CB_OnFree_def Let_def LOCK_GUARD_def Locked_Find_def
      split: if_splits prod.splits)

lemma CB_OnTimer_inv:
  "CB_OnTimer env p s = Inr s' \<Longrightarrow> pool_inv s \<Longrightarrow> pool_inv s'"
proof (cases "TryLock env")
  case True
  assume a: "CB_OnTimer env p s = Inr s'" and i: "pool_inv s"
  let ?s = "s\<lparr>OnTimerCalls := OnTimerCalls s + 1, Owner := ThreadId env\<rparr>"
  from a True have "Locked_StopExpired env (Some p) ?s = Inr s'"
    by (simp add: CB_OnTimer_def Let_def)
  moreover from i have "pool_inv ?s" by (simp add: pool_inv_def)
  ultimately show ?thesis by (rule Locked_StopExpired_inv)
next
  case False
  assume "CB_OnTimer env p s = Inr s'" "pool_inv s"
  with False show ?thesis by (auto simp: CB_OnTimer_def Let_def pool_inv_def)
qed

lemma expire_all_lists:
  "AllW (expire_all es s) = AllW s \<and> Unused (expire_all es s) = Unused s"
  by (induction es arbitrary: s) (simp_all add: SetExpireTimer_def)

lemma StopUnused_inv:
  assumes "StopUnused env s = Inr s'" "pool_inv s"
  shows "pool_inv s'"
proof -
  let ?s = "expire_all (Unused (LOCK_GUARD env s)) (LOCK_GUARD env s)"
  from assms(1) have "Locked_StopExpired env None ?s = Inr s'"
    by (simp add: StopUnused_def Let_def)
  moreover from assms(2) have "pool_inv ?s"
    by (simp add: pool_inv_def expire_all_lists LOCK_GUARD_def)
  ultimately show ?thesis by (rule Locked_StopExpired_inv)
qed

lemma stop_all_lists:
  "AllW (stop_all es s) = AllW s \<and> Unused (stop_all es s) = Unused s
   \<and> Stopping (stop_all es s) = Stopping s"
  by (induction es arbitrary: s) (simp_all add: Worker_Stop_def)

lemma Stop_locked_lists:
  "AllW (Stop_locked env s) = AllW s \<and> Unused (Stop_locked env s) = Unused s
   \<and> Stopping (Stop_locked env s)"
  by (simp add: Stop_locked_def Let_def LOCK_GUARD_def SetStopping_def stop_all_lists)

lemma Stop_result:
  "Stop env s = Inr s' \<Longrightarrow> Stopping s' \<and> AllW s' = [] \<and> Unused s' = []
     \<and> ThreadsTotal s' = 0 \<and> ThreadsUnused s' = 0"
  by (auto simp: Stop_def Stop_clear_def Let_def Stop_locked_lists split: if_splits)


subsection \<open>The forced expiry\<close>

lemma scan_no_caller: "scan env s None es i st = (r, st') \<Longrightarrow> st' = st"
  by (induction es arbitrary: i) (auto split: if_splits)

lemma sweep_no_caller:
  "sweep env caller st s = Inr (st', s') \<Longrightarrow> caller = None \<Longrightarrow> st' = st"
proof (induction env caller st s rule: sweep.induct)
  case (1 env caller st s)
  from "1.prems"(1) show ?case
  proof (cases rule: sweep_cases)
    case final
    with "1.prems"(2) scan_no_caller show ?thesis by fastforce
  next
    case (step i st1 s1)
    from step(1) "1.prems"(2) have "st1 = st"
      using scan_no_caller by fastforce
    with "1.IH" [OF step(1) [symmetric] refl step(2) step(3) "1.prems"(2)] show ?thesis
      by simp
  qed
qed

lemma sweep_ExpireTimer:
  "sweep env caller st s = Inr (st', s') \<Longrightarrow> ExpireTimer (Heap s' x) = ExpireTimer (Heap s x)"
proof (induction env caller st s rule: sweep.induct)
  case (1 env caller st s)
  from "1.prems"(1) show ?case
  proof (cases rule: sweep_cases)
    case final
    then show ?thesis by simp
  next
    case (step i st1 s1)
    from "1.IH" [OF step(1) [symmetric] refl step(2) step(3)] evict_Inr(5) [OF step(2)]
    show ?thesis by simp
  qed
qed

lemma expire_all_deadline:
  "ExpireTimer (Heap (expire_all es s) p) =
     (if p \<in> set es then Some 0 else ExpireTimer (Heap s p))"
  by (induction es arbitrary: s) (auto simp: SetExpireTimer_def)

lemma StopUnused_deadlines:
  assumes "StopUnused env s = Inr s'"
  shows "(\<forall>q\<in>set (Unused s). ExpireTimer (Heap s' q) = Some 0) \<and> Timer s' = None"
proof -
  let ?S = "expire_all (Unused (LOCK_GUARD env s)) (LOCK_GUARD env s)"
  from assms have a: "Locked_StopExpired env None ?S = Inr s'"
    by (simp add: StopUnused_def Let_def)
  have d: "ExpireTimer (Heap ?S q) = Some 0" if "q \<in> set (Unused s)" for q
    using that by (simp add: expire_all_deadline LOCK_GUARD_def)
  from a show ?thesis
  proof (cases rule: Locked_StopExpired_cases)
    case stopping
    with d show ?thesis by simp
  next
    case (swept st' s1)
    from sweep_no_caller [OF swept(2) refl] swept(3) have "s' = s1"
      by simp
    moreover from sweep_fields [OF swept(2)] have "Timer s1 = None"
      by simp
    moreover have "ExpireTimer (Heap s1 q) = ExpireTimer (Heap ?S q)" for q
      using sweep_ExpireTimer [OF swept(2), of q] by simp
    ultimately show ?thesis
      using d by simp
  qed
qed

subsection \<open>The admission loop\<close>

lemma Run_loop_inv:
  "Run_loop env ws s = Inr r \<Longrightarrow> pool_inv s \<Longrightarrow> NewWorker env \<notin> set (AllW s) \<Longrightarrow>
   \<forall>w\<in>set ws. rely env w \<Longrightarrow>
   pool_inv (LoopExit_pool r) \<and>
   (\<forall>t. obtained r = Some t \<longrightarrow> t \<in> set (AllW (LoopExit_pool r)) \<and> t \<notin> set (Unused (LoopExit_pool r)))"
proof (induction ws arbitrary: s)
  case Nil
  show ?case
  proof (cases "Stopping s")
    case True
    with Nil show ?thesis by (auto simp: Run_loop.simps)
  next
    case False
    with Nil.prems(1) obtain t n s1 where p: "PopUnused env s = Inr (t, n, s1)"
      by (auto simp: Run_loop.simps [of env "[]"] split: sum.splits)
    note i = PopUnused_inv [OF p Nil.prems(2)]
    from i(2) Nil.prems(3) have fresh: "NewWorker env \<notin> set (AllW s1)" by auto
    show ?thesis
    proof (cases t)
      case (Some t')
      with p False Nil.prems(1) i show ?thesis
        by (auto simp: Run_loop.simps [of env "[]"])
    next
      case None
      with p False Nil.prems(1) i(1) fresh show ?thesis
        by (auto simp: Run_loop.simps [of env "[]"] Let_def elapsed_def pool_inv_def Push_def LOCK_GUARD_def
            split: if_splits)
    qed
  qed
next
  case (Cons w ws)
  obtain rc others where w: "w = (rc, others)" by (cases w)
  show ?case
  proof (cases "Stopping s")
    case True
    with Cons.prems show ?thesis by (auto simp: Run_loop.simps)
  next
    case False
    with Cons.prems(1) obtain t n s1 where p: "PopUnused env s = Inr (t, n, s1)"
      by (auto simp: Run_loop.simps [of env "_ # _"] split: sum.splits)
    note i = PopUnused_inv [OF p Cons.prems(2)]
    from i(2) Cons.prems(3) have fresh: "NewWorker env \<notin> set (AllW s1)" by auto
    from Cons.prems(4) w have "rely env (rc, others)" by simp
    with i(1) fresh have o: "pool_inv (others s1)" "NewWorker env \<notin> set (AllW (others s1))"
      by (simp_all add: rely_def)
    from Cons.prems(4) have rest: "\<forall>w\<in>set ws. rely env w" by simp
    show ?thesis
    proof (cases t)
      case (Some t')
      with p False Cons.prems(1) i show ?thesis
        by (auto simp: Run_loop.simps [of env "_ # _"])
    next
      case None
      show ?thesis
      proof (cases "MaxThreads s1 \<le> n \<and> Mode s1 \<noteq> FAIL \<and> rc \<noteq> OBJECT_0")
        case True
        with None p False Cons.prems(1) w have "Run_loop env ws (others s1) = Inr r"
          by (simp add: Run_loop.simps [of env "_ # _"])
        from Cons.IH [OF this o rest] show ?thesis .
      next
        case other: False
        with None p False Cons.prems(1) w i(1) fresh o(1) show ?thesis
          by (auto simp: Run_loop.simps [of env "_ # _"] Let_def elapsed_def pool_inv_def Push_def
              LOCK_GUARD_def split: if_splits)
      qed
    qed
  qed
qed

lemma Run_inv:
  assumes "Run env ws pid s = Inr r" "pool_inv s" "NewWorker env \<notin> set (AllW s)"
    "\<forall>w\<in>set ws. rely env w"
  shows "pool_inv (RunResult_pool r)"
proof -
  from assms(1) obtain l where l: "Run_loop env ws s = Inr l"
    by (auto simp: Run_def Let_def split: sum.splits)
  note i = Run_loop_inv [OF l assms(2-4)]
  show ?thesis
  proof (cases l)
    case (ReturnNull s1)
    with l assms(1) i show ?thesis by (auto simp: Run_def Let_def)
  next
    case (BlockedWait s1)
    with l assms(1) i show ?thesis by (auto simp: Run_def Let_def)
  next
    case (LoopDone t s1)
    show ?thesis
    proof (cases t)
      case None
      with LoopDone l assms(1) show ?thesis by (simp add: Run_def Let_def)
    next
      case (Some t')
      with LoopDone i have "pool_inv s1" "t' \<in> set (AllW s1)" "t' \<notin> set (Unused s1)"
        by simp_all
      then have "pool_inv (Push env RefUnused t' s1)" "pool_inv (elapsed env s1)"
        by (simp_all add: Push_RefUnused_inv) (simp add: elapsed_def pool_inv_def)
      with Some LoopDone l assms(1) show ?thesis
        by (auto simp: Run_def Let_def elapsed_def pool_inv_def split: prod.splits option.splits)
    qed
  qed
qed


subsection \<open>Evaluation and small facts\<close>

lemmas ex_defs = env_ex_def env_refusing_def env_release_def env_later_def pool_idle_def pool_busy_def pool_expiring_def
  pool_short_def Pool_init_def new_Worker_def

lemmas op_defs = PopUnused_def Locked_StopExpired_def sweep.simps evict_def use_count_def
  erase_at_def IsExpired_def Worker_Stop_def CancelExpireTimer_def SetExpireTimer_def
  LOCK_GUARD_def SET_TIMER_def Push_def CB_OnFree_def CB_OnTimer_def Locked_Find_def
  StopUnused_def Stop_def Stop_locked_def Stop_clear_def SetStopping_def Run_def
  Run_loop.simps elapsed_def freed_def Let_def

lemma fun_upd_const: "(\<lambda>_. c)(x := c) = (\<lambda>_. c)"
  by (rule ext) simp

lemma Run_loop_Stopping: "Stopping s \<Longrightarrow> Run_loop env ws s = Inr (LoopDone None s)"
  by (simp add: Run_loop.simps)

lemma Run_Stopping: "Stopping s \<Longrightarrow> Run env ws pid s = Inl NullDereference"
  by (simp add: Run_def Run_loop_Stopping)

lemma timer_period_exact:
  assumes "0 \<le> m" "4 * m < 2 ^ (LONG_BITS env - 1)"
  shows "timer_period env m = 4 * m div 3"
proof -
  from assms have "signed_take_bit (LONG_BITS env - 1) (4 * m) = 4 * m"
    by (intro signed_take_bit_int_eq_self) (auto intro: order_trans [of _ 0])
  with assms(1) show ?thesis
    by (cases "m = 0") (simp_all add: timer_period_def signed_divide_int_def)
qed

lemma timer_period_3000: "timer_period env_ex 3000 = 4000"
  by (simp add: timer_period_exact env_ex_def)

lemma rely_freed:
  assumes "DEBUG env" "\<not> NDEBUG env"
  shows "rely env (rc, freed env p)"
  unfolding rely_def
proof (intro allI impI)
  fix s
  assume a: "pool_inv s \<and> NewWorker env \<notin> set (AllW s)"
  show "pool_inv (snd (rc, freed env p) s) \<and> NewWorker env \<notin> set (AllW (snd (rc, freed env p) s))"
  proof (cases "CB_OnFree env p s")
    case (Inl f)
    with a show ?thesis by (simp add: freed_def)
  next
    case (Inr s')
    from CB_OnFree_checked [OF Inr assms] a have "pool_inv s'"
      using CB_OnFree_inv [OF Inr] by simp
    moreover from Inr have "AllW s' = AllW s"
      by (auto simp: CB_OnFree_def Let_def LOCK_GUARD_def SET_TIMER_def SetExpireTimer_def
          split: if_splits prod.splits)
    ultimately show ?thesis
      using a Inr by (simp add: freed_def)
  qed
qed

subsection \<open>Claims\<close>

text \<open>
  Claim C1. After \<^verbatim>\<open>Stop()\<close>, every later call of \<^verbatim>\<open>Run\<close> should return the
  refusal at once, and both collections are empty.

  What the code does: \<^verbatim>\<open>Stop()\<close> leaves the flag set and both collections empty, but a
  call of \<^verbatim>\<open>Run\<close> that finds the flag set never enters its loop, so \<open>t\<close> is still the
  null pointer when \<^verbatim>\<open>t->Invoke(cb, id)\<close> is reached: the call does not return the
  refusal, it dereferences null. (The wait inside the loop does return the refusal when
  the stop signal fires.)
\<close>

theorem C1_Run_after_Stop:
  "Stop env s = Inr s' \<Longrightarrow>
     Stopping s' \<and> AllW s' = [] \<and> Unused s' = [] \<and>
     Run env' ws pid s' = Inl NullDereference"
  using Stop_result [of env s s'] Run_Stopping [of s' env' ws pid] by simp

theorem C1_Run_after_Stop_witness:
  "Stop env_ex pool_idle = Inr (Stop_clear (Stop_locked env_ex pool_idle)) \<and>
   Stopping (Stop_clear (Stop_locked env_ex pool_idle)) \<and>
   AllW (Stop_clear (Stop_locked env_ex pool_idle)) = [] \<and>
   Unused (Stop_clear (Stop_locked env_ex pool_idle)) = [] \<and>
   Run env_ex [] True (Stop_clear (Stop_locked env_ex pool_idle)) = Inl NullDereference"
proof -
  have h: "Stop env_ex pool_idle = Inr (Stop_clear (Stop_locked env_ex pool_idle))"
    by (simp add: Stop_def Let_def Stop_locked_lists ex_defs)
  from C1_Run_after_Stop [OF h] h show ?thesis by simp
qed

text \<open>
  Claim C2. When \<^verbatim>\<open>Run\<close> finds no idle worker, the recorded size of \<^verbatim>\<open>All\<close> is at
  least \<^verbatim>\<open>MaxThreads\<close> and the overflow mode is \<^verbatim>\<open>FAIL\<close>, it adds one to the error
  counter and returns the refusal at once (whatever wake-ups there would be): no worker
  is made, and \<^verbatim>\<open>All\<close> and \<^verbatim>\<open>Unused\<close> are as before. The size is recorded inside the
  loop, so the pool is not stopping. The state changes in the owner of the lock, in the
  error counter and in the time counter only.
\<close>

theorem C2_fail_mode_refuses:
  "\<not> Stopping s \<Longrightarrow> Unused s = [] \<Longrightarrow> MaxThreads s \<le> length (AllW s) \<Longrightarrow> Mode s = FAIL \<Longrightarrow>
   Run env ws pid s =
     Inr (Returned None (if pid then Some 0 else None)
       (s\<lparr>Owner := ThreadId env, Errors := Errors s + 1,
          LockedInRun := LockedInRun s + ElapsedSince env\<rparr>))"
  by (simp add: Run_def Run_loop.simps PopUnused_def LOCK_GUARD_def elapsed_def)

theorem C2_fail_mode_refuses_witness:
  "\<not> Stopping (pool_busy\<lparr>Mode := FAIL\<rparr>) \<and> Unused (pool_busy\<lparr>Mode := FAIL\<rparr>) = [] \<and>
   MaxThreads (pool_busy\<lparr>Mode := FAIL\<rparr>) \<le> length (AllW (pool_busy\<lparr>Mode := FAIL\<rparr>)) \<and>
   Mode (pool_busy\<lparr>Mode := FAIL\<rparr>) = FAIL \<and>
   Run env_ex [] True (pool_busy\<lparr>Mode := FAIL\<rparr>) =
     Inr (Returned None (Some 0)
       (pool_busy\<lparr>Mode := FAIL, Owner := 7, Errors := 1, LockedInRun := 5\<rparr>))"
  using C2_fail_mode_refuses [of "pool_busy\<lparr>Mode := FAIL\<rparr>" env_ex "[]" True]
  by (simp add: ex_defs)




text \<open>
  Claim C4. When \<^verbatim>\<open>Run\<close> has obtained a worker (the loop is left with a worker
  \<open>t\<close>) and \<^verbatim>\<open>Invoke\<close> gives the null handle, \<^verbatim>\<open>Run\<close> pushes this same worker on
  the back of \<^verbatim>\<open>Unused\<close>, adds one to the error counter and returns the refusal;
  \<^verbatim>\<open>All\<close> is not changed by this, and the worker is a member of it. The membership
  holds for a pool that satisfies the invariant of the collections, when the threads that
  ran during the waits kept it.
\<close>

theorem C4_invoke_failure:
  "Run_loop env ws s = Inr (LoopDone (Some t) s1) \<Longrightarrow> fst (Invoke env t) = None \<Longrightarrow>
   pool_inv s \<Longrightarrow> NewWorker env \<notin> set (AllW s) \<Longrightarrow> \<forall>w\<in>set ws. rely env w \<Longrightarrow>
     Run env ws pid s =
       Inr (Returned None (if pid then Some 0 else None)
         (elapsed env ((Push env RefUnused t s1)\<lparr>Errors := Errors s1 + 1\<rparr>))) \<and>
     Unused (Push env RefUnused t s1) = Unused s1 @ [t] \<and>
     AllW (Push env RefUnused t s1) = AllW s1 \<and>
     t \<in> set (AllW s1) \<and> t \<notin> set (Unused s1)"
proof -
  assume l: "Run_loop env ws s = Inr (LoopDone (Some t) s1)" and f: "fst (Invoke env t) = None"
    and i: "pool_inv s" "NewWorker env \<notin> set (AllW s)" "\<forall>w\<in>set ws. rely env w"
  from Run_loop_inv [OF l i] have m: "t \<in> set (AllW s1) \<and> t \<notin> set (Unused s1)"
    by simp
  have e: "Errors (Push env RefUnused t s1) = Errors s1"
    by (simp add: Push_def Let_def LOCK_GUARD_def)
  from f obtain i' where "Invoke env t = (None, i')"
    by (cases "Invoke env t") simp
  with l e have "Run env ws pid s =
      Inr (Returned None (if pid then Some 0 else None)
        (elapsed env ((Push env RefUnused t s1)\<lparr>Errors := Errors s1 + 1\<rparr>)))"
    by (simp add: Run_def Let_def)
  moreover have "Unused (Push env RefUnused t s1) = Unused s1 @ [t]"
    "AllW (Push env RefUnused t s1) = AllW s1"
    by (simp_all add: Push_def Let_def LOCK_GUARD_def)
  ultimately show ?thesis
    using m by simp
qed

theorem C4_invoke_failure_witness:
  "Run_loop env_refusing [(OBJECT_1, freed env_refusing 1)] pool_busy =
     Inr (LoopDone (Some 1) (pool_busy\<lparr>Owner := 7, FreeEvent := True\<rparr>)) \<and>
   fst (Invoke env_refusing 1) = None \<and> pool_inv pool_busy \<and>
   NewWorker env_refusing \<notin> set (AllW pool_busy) \<and>
   Run env_refusing [(OBJECT_1, freed env_refusing 1)] True pool_busy =
     Inr (Returned None (Some 0)
       (pool_busy\<lparr>Owner := 7, FreeEvent := True, Unused := [1], ThreadsUnused := 1,
          Errors := 1, LockedInRun := 5\<rparr>)) \<and>
   1 \<in> set (AllW (pool_busy\<lparr>Owner := 7, FreeEvent := True\<rparr>))"
proof -
  let ?s1 = "pool_busy\<lparr>Owner := 7, FreeEvent := True\<rparr>"
  have l: "Run_loop env_refusing [(OBJECT_1, freed env_refusing 1)] pool_busy =
      Inr (LoopDone (Some 1) ?s1)"
    by (simp add: op_defs ex_defs fun_upd_const)
  have f: "fst (Invoke env_refusing 1) = None"
    by (simp add: ex_defs)
  have i: "pool_inv pool_busy" "NewWorker env_refusing \<notin> set (AllW pool_busy)"
    by (simp_all add: pool_inv_def ex_defs)
  have r: "\<forall>w\<in>set [(OBJECT_1, freed env_refusing 1)]. rely env_refusing w"
    using rely_freed [of env_refusing OBJECT_1 1] by (simp add: ex_defs)
  have e: "elapsed env_refusing ((Push env_refusing RefUnused 1 ?s1)\<lparr>Errors := Errors ?s1 + 1\<rparr>) =
      pool_busy\<lparr>Owner := 7, FreeEvent := True, Unused := [1], ThreadsUnused := 1,
        Errors := 1, LockedInRun := 5\<rparr>"
    by (simp add: op_defs ex_defs)
  from C4_invoke_failure [OF l f i r, of True, unfolded e] l f i show ?thesis
    by simp
qed

text \<open>
  Claim C5, corrected. Every worker in \<^verbatim>\<open>Unused\<close> is in \<^verbatim>\<open>All\<close>, and no worker is
  twice in either collection; this is kept by \<^verbatim>\<open>PopUnused\<close>, by the eviction sweep
  (alone and from the timer callback), by \<^verbatim>\<open>Stop\<close>, by \<^verbatim>\<open>StopUnused\<close>, and by
  \<^verbatim>\<open>Run\<close> with the pushes it makes, when the new worker's address is not in
  \<^verbatim>\<open>All\<close> and the threads that run during its waits keep the invariant. \<^verbatim>\<open>Push\<close>
  and the idle callback are given a worker by their caller and keep the invariant exactly
  for these workers: \<^verbatim>\<open>Push\<close> onto \<^verbatim>\<open>All\<close> for a worker that is not in \<^verbatim>\<open>All\<close>;
  \<^verbatim>\<open>Push\<close> onto \<^verbatim>\<open>Unused\<close> and the idle callback for a worker that is in \<^verbatim>\<open>All\<close>
  and not in \<^verbatim>\<open>Unused\<close>. The idle callback checks this only by its assertion under
  \<^verbatim>\<open>_DEBUG\<close>: with the assertion compiled in, an idle callback that returns has kept the
  invariant.
\<close>

theorem C5_invariant_preserved:
  "pool_inv s \<Longrightarrow>
     (PopUnused env s = Inr (r, n, s1) \<longrightarrow> pool_inv s1) \<and>
     pool_inv (Push env RefAll t s) = (t \<notin> set (AllW s)) \<and>
     pool_inv (Push env RefUnused p s) = (p \<in> set (AllW s) \<and> p \<notin> set (Unused s)) \<and>
     (CB_OnFree env p s = Inr s2 \<longrightarrow>
        pool_inv s2 = (p \<in> set (AllW s) \<and> p \<notin> set (Unused s))) \<and>
     (DEBUG env \<and> \<not> NDEBUG env \<and> CB_OnFree env q s = Inr s3 \<longrightarrow> pool_inv s3) \<and>
     (Locked_StopExpired env caller s = Inr s4 \<longrightarrow> pool_inv s4) \<and>
     (CB_OnTimer env c s = Inr s5 \<longrightarrow> pool_inv s5) \<and>
     (Stop env s = Inr s6 \<longrightarrow> pool_inv s6) \<and>
     (StopUnused env s = Inr s7 \<longrightarrow> pool_inv s7) \<and>
     (NewWorker env \<notin> set (AllW s) \<and> (\<forall>w\<in>set ws. rely env w) \<and> Run env ws pid s = Inr res
        \<longrightarrow> pool_inv (RunResult_pool res))"
proof -
  assume i: "pool_inv s"
  have 1: "PopUnused env s = Inr (r, n, s1) \<longrightarrow> pool_inv s1"
    using PopUnused_inv(1) [OF _ i] by blast
  have 2: "pool_inv (Push env RefAll t s) = (t \<notin> set (AllW s))"
    using i by (auto simp: pool_inv_def Push_def Let_def LOCK_GUARD_def)
  have 3: "pool_inv (Push env RefUnused p s) = (p \<in> set (AllW s) \<and> p \<notin> set (Unused s))"
    using i by (auto simp: pool_inv_def Push_def Let_def LOCK_GUARD_def)
  have 4: "CB_OnFree env p s = Inr s2 \<longrightarrow>
      pool_inv s2 = (p \<in> set (AllW s) \<and> p \<notin> set (Unused s))"
  proof
    assume a: "CB_OnFree env p s = Inr s2"
    then have "AllW s2 = AllW s" "Unused s2 = Unused s @ [p]"
      by (auto simp: CB_OnFree_def Let_def LOCK_GUARD_def SET_TIMER_def SetExpireTimer_def
          split: if_splits prod.splits)
    with i show "pool_inv s2 = (p \<in> set (AllW s) \<and> p \<notin> set (Unused s))"
      by (auto simp: pool_inv_def)
  qed
  have 5: "DEBUG env \<and> \<not> NDEBUG env \<and> CB_OnFree env q s = Inr s3 \<longrightarrow> pool_inv s3"
    using CB_OnFree_inv [OF _ i] CB_OnFree_checked [of env q s s3] by blast
  have 6: "Locked_StopExpired env caller s = Inr s4 \<longrightarrow> pool_inv s4"
    using Locked_StopExpired_inv [OF _ i] by blast
  have 7: "CB_OnTimer env c s = Inr s5 \<longrightarrow> pool_inv s5"
    using CB_OnTimer_inv [OF _ i] by blast
  have 8: "Stop env s = Inr s6 \<longrightarrow> pool_inv s6"
    using Stop_result [of env s s6] by (auto simp: pool_inv_def)
  have 9: "StopUnused env s = Inr s7 \<longrightarrow> pool_inv s7"
    using StopUnused_inv [OF _ i] by blast
  have 10: "NewWorker env \<notin> set (AllW s) \<and> (\<forall>w\<in>set ws. rely env w) \<and> Run env ws pid s = Inr res
      \<longrightarrow> pool_inv (RunResult_pool res)"
    using Run_inv [OF _ i] by blast
  from 1 2 3 4 5 6 7 8 9 10 show ?thesis
    by (intro conjI)
qed

theorem C5_invariant_preserved_witness:
  "pool_inv pool_expiring \<and>
   \<not> isl (PopUnused env_ex pool_expiring) \<and>
   pool_inv (snd (snd (projr (PopUnused env_ex pool_expiring)))) \<and>
   4 \<notin> set (AllW pool_expiring) \<and> pool_inv (Push env_ex RefAll 4 pool_expiring) \<and>
   3 \<in> set (AllW pool_expiring) \<and> 3 \<notin> set (Unused pool_expiring) \<and>
   pool_inv (Push env_ex RefUnused 3 pool_expiring) \<and>
   DEBUG env_ex \<and> \<not> NDEBUG env_ex \<and>
   \<not> isl (CB_OnFree env_ex 3 pool_expiring) \<and>
   pool_inv (projr (CB_OnFree env_ex 3 pool_expiring)) \<and>
   \<not> isl (Locked_StopExpired env_ex (Some 1) pool_expiring) \<and>
   pool_inv (projr (Locked_StopExpired env_ex (Some 1) pool_expiring)) \<and>
   \<not> isl (CB_OnTimer env_ex 1 pool_expiring) \<and>
   pool_inv (projr (CB_OnTimer env_ex 1 pool_expiring)) \<and>
   \<not> isl (StopUnused env_ex pool_expiring) \<and>
   pool_inv (projr (StopUnused env_ex pool_expiring)) \<and>
   pool_inv pool_idle \<and> \<not> isl (Stop env_ex pool_idle) \<and>
   pool_inv (projr (Stop env_ex pool_idle)) \<and>
   pool_inv pool_busy \<and> NewWorker env_ex \<notin> set (AllW pool_busy) \<and>
   \<not> isl (Run env_ex [(OBJECT_1, freed env_ex 1)] True pool_busy) \<and>
   pool_inv (RunResult_pool (projr (Run env_ex [(OBJECT_1, freed env_ex 1)] True pool_busy)))"
proof -
  have i: "pool_inv pool_expiring" "pool_inv pool_idle" "pool_inv pool_busy"
    by (simp_all add: pool_inv_def ex_defs)
  have m: "4 \<notin> set (AllW pool_expiring)" "3 \<in> set (AllW pool_expiring)"
    "3 \<notin> set (Unused pool_expiring)" "DEBUG env_ex" "\<not> NDEBUG env_ex"
    "NewWorker env_ex \<notin> set (AllW pool_busy)"
    by (simp_all add: ex_defs)
  have r: "\<forall>w\<in>set [(OBJECT_1, freed env_ex 1)]. rely env_ex w"
    using rely_freed [OF m(4,5), of OBJECT_1 1] by simp
  have 1: "\<not> isl (PopUnused env_ex pool_expiring)"
    by (simp add: op_defs ex_defs)
  have 2: "\<not> isl (CB_OnFree env_ex 3 pool_expiring)"
    by (simp add: op_defs ex_defs)
  have 3: "\<not> isl (Locked_StopExpired env_ex (Some 1) pool_expiring)"
    by (simp add: op_defs ex_defs)
  have 4: "\<not> isl (CB_OnTimer env_ex 1 pool_expiring)"
    by (simp add: op_defs ex_defs)
  have 5: "\<not> isl (StopUnused env_ex pool_expiring)"
    by (simp add: op_defs ex_defs)
  have 6: "\<not> isl (Stop env_ex pool_idle)"
    by (simp add: Stop_def Let_def Stop_locked_lists ex_defs)
  have 7: "\<not> isl (Run env_ex [(OBJECT_1, freed env_ex 1)] True pool_busy)"
    by (simp add: op_defs ex_defs)
  have c: "x = Inr (projr x)" if "\<not> isl x" for x :: "fault + 'a"
    using that by simp
  have p: "PopUnused env_ex pool_expiring =
      Inr (fst (projr (PopUnused env_ex pool_expiring)),
           fst (snd (projr (PopUnused env_ex pool_expiring))),
           snd (snd (projr (PopUnused env_ex pool_expiring))))"
    using c [OF 1] by simp
  note a = C5_invariant_preserved [OF i(1), of env_ex
      "fst (projr (PopUnused env_ex pool_expiring))"
      "fst (snd (projr (PopUnused env_ex pool_expiring)))"
      "snd (snd (projr (PopUnused env_ex pool_expiring)))" 4 3
      "projr (CB_OnFree env_ex 3 pool_expiring)" 3
      "projr (CB_OnFree env_ex 3 pool_expiring)" "Some 1"
      "projr (Locked_StopExpired env_ex (Some 1) pool_expiring)" 1
      "projr (CB_OnTimer env_ex 1 pool_expiring)"
      "projr (Stop env_ex pool_expiring)"
      "projr (StopUnused env_ex pool_expiring)"]
  note b = C5_invariant_preserved [OF i(2), of env_ex _ _ _ _ _ _ _ _ _ _ _ _
      "projr (Stop env_ex pool_idle)"]
  note d = C5_invariant_preserved [OF i(3), of env_ex _ _ _ _ _ _ _ _ _ _ _ _ _ _
      "[(OBJECT_1, freed env_ex 1)]" True
      "projr (Run env_ex [(OBJECT_1, freed env_ex 1)] True pool_busy)"]
  from a p m c [OF 2] c [OF 3] c [OF 4] c [OF 5]
  have "pool_inv (snd (snd (projr (PopUnused env_ex pool_expiring))))"
    "pool_inv (Push env_ex RefAll 4 pool_expiring)"
    "pool_inv (Push env_ex RefUnused 3 pool_expiring)"
    "pool_inv (projr (CB_OnFree env_ex 3 pool_expiring))"
    "pool_inv (projr (Locked_StopExpired env_ex (Some 1) pool_expiring))"
    "pool_inv (projr (CB_OnTimer env_ex 1 pool_expiring))"
    "pool_inv (projr (StopUnused env_ex pool_expiring))"
    by blast+
  moreover from b c [OF 6] have "pool_inv (projr (Stop env_ex pool_idle))"
    by blast
  moreover from d m(6) r c [OF 7]
  have "pool_inv (RunResult_pool (projr (Run env_ex [(OBJECT_1, freed env_ex 1)] True pool_busy)))"
    by blast
  ultimately show ?thesis
    using i m 1 2 3 4 5 6 7 by simp
qed

text \<open>
  Claim C5 as it was stated fails for \<^verbatim>\<open>Push\<close> and for the idle callback. In a build
  without the assertion, the idle callback called for worker 1, which is idle already,
  returns with worker 1 twice in \<^verbatim>\<open>Unused\<close>; \<^verbatim>\<open>Push\<close> onto \<^verbatim>\<open>Unused\<close> does
  the same, and \<^verbatim>\<open>Push\<close> onto \<^verbatim>\<open>All\<close> puts it twice in \<^verbatim>\<open>All\<close>.
\<close>

theorem C5_counterexample:
  "pool_inv pool_idle \<and> Unused pool_idle = [1, 2] \<and> AllW pool_idle = [1, 2] \<and>
   \<not> isl (CB_OnFree env_release 1 pool_idle) \<and>
   Unused (projr (CB_OnFree env_release 1 pool_idle)) = [1, 2, 1] \<and>
   \<not> pool_inv (projr (CB_OnFree env_release 1 pool_idle)) \<and>
   Unused (Push env_release RefUnused 1 pool_idle) = [1, 2, 1] \<and>
   \<not> pool_inv (Push env_release RefUnused 1 pool_idle) \<and>
   AllW (Push env_release RefAll 1 pool_idle) = [1, 2, 1] \<and>
   \<not> pool_inv (Push env_release RefAll 1 pool_idle)"
  by (simp add: pool_inv_def op_defs ex_defs)

text \<open>
  Claim C6. The idle callback should, when the size of \<^verbatim>\<open>Unused\<close> plus one exceeds
  \<^verbatim>\<open>MaxUnusedThreads\<close>, set the worker's deadline to \<^verbatim>\<open>MaxIdleTime\<close> and arm the
  shared timer, and in every case push the worker on the back of \<^verbatim>\<open>Unused\<close>, set the
  idle count to the new size of \<^verbatim>\<open>Unused\<close> and raise the free signal.

  What the code does: the deadline, the timer, the push and the free signal are as
  claimed, but \<^verbatim>\<open>CB_OnFree\<close> has no assignment to \<^verbatim>\<open>ThreadsUnused\<close>: the idle count
  keeps the value it had. (\<^verbatim>\<open>Push\<close>, \<^verbatim>\<open>PopUnused\<close> and the sweep all assign
  \<^verbatim>\<open>Unused.size()\<close> to it after they change \<^verbatim>\<open>Unused\<close>.)
\<close>

theorem C6_idle_callback_count_stale:
  "CB_OnFree env p s = Inr s' \<Longrightarrow>
     Unused s' = Unused s @ [p] \<and> FreeEvent s' \<and>
     ThreadsUnused s' = ThreadsUnused s \<and>
     (MaxUnusedThreads s < length (Unused s) + 1 \<longrightarrow>
        ExpireTimer (Heap s' p) = Some (MaxIdleTime s) \<and>
        Timer s' = Some (timer_period env (MaxIdleTime s)))"
  by (auto simp: CB_OnFree_def Let_def LOCK_GUARD_def SET_TIMER_def SetExpireTimer_def
      split: if_splits prod.splits)

theorem C6_idle_callback_count_stale_witness:
  "\<not> isl (CB_OnFree env_ex 1 pool_short) \<and>
   MaxUnusedThreads pool_short < length (Unused pool_short) + 1 \<and>
   Unused (projr (CB_OnFree env_ex 1 pool_short)) = [1] \<and>
   FreeEvent (projr (CB_OnFree env_ex 1 pool_short)) \<and>
   ThreadsUnused (projr (CB_OnFree env_ex 1 pool_short)) = 0 \<and>
   ThreadsUnused (projr (CB_OnFree env_ex 1 pool_short)) \<noteq>
     of_nat (length (Unused (projr (CB_OnFree env_ex 1 pool_short)))) \<and>
   ExpireTimer (Heap (projr (CB_OnFree env_ex 1 pool_short)) 1) = Some 1 \<and>
   Timer (projr (CB_OnFree env_ex 1 pool_short)) = Some (timer_period env_ex 1)"
proof -
  have 1: "\<not> isl (CB_OnFree env_ex 1 pool_short)"
    by (simp add: op_defs ex_defs)
  then have "CB_OnFree env_ex 1 pool_short = Inr (projr (CB_OnFree env_ex 1 pool_short))"
    by simp
  from C6_idle_callback_count_stale [OF this] 1 show ?thesis
    by (simp add: ex_defs)
qed

text \<open>
  Claim C7, corrected. When the idle callback gives a worker a deadline, the deadline is
  \<^verbatim>\<open>MaxIdleTime\<close> and the shared timer is armed with \<^verbatim>\<open>4 * MaxIdleTime / 3\<close> in
  integer arithmetic. For an idle duration that is not negative and whose fourfold fits
  \<^verbatim>\<open>long\<close>, this period is \<open>4 * MaxIdleTime div 3\<close> and not shorter than the deadline
  (strictly longer exactly from a duration of 3 on), so that the deadline has elapsed by
  the time the timer fires: once the period has passed since the arming, the worker is
  expired. \<^verbatim>\<open>StopUnused\<close> gives every idle worker the deadline 0 instead, whatever
  \<^verbatim>\<open>MaxIdleTime\<close> is, and leaves the shared timer cancelled.
\<close>

theorem C7_deadline_and_period:
  "(CB_OnFree env p s = Inr s' \<and> MaxUnusedThreads s < length (Unused s) + 1 \<longrightarrow>
      ExpireTimer (Heap s' p) = Some (MaxIdleTime s) \<and>
      Timer s' = Some (timer_period env (MaxIdleTime s)) \<and>
      (0 \<le> MaxIdleTime s \<and> 4 * MaxIdleTime s < 2 ^ (LONG_BITS env - 1) \<longrightarrow>
         timer_period env (MaxIdleTime s) = 4 * MaxIdleTime s div 3 \<and>
         MaxIdleTime s \<le> timer_period env (MaxIdleTime s) \<and>
         (MaxIdleTime s < timer_period env (MaxIdleTime s)) = (3 \<le> MaxIdleTime s) \<and>
         (timer_period env (MaxIdleTime s) \<le> Elapsed env' p \<longrightarrow> IsExpired env' s' p))) \<and>
   (StopUnused env s = Inr s'' \<longrightarrow>
      (\<forall>q\<in>set (Unused s). ExpireTimer (Heap s'' q) = Some 0) \<and> Timer s'' = None)"
proof -
  have 1: "ExpireTimer (Heap s' p) = Some (MaxIdleTime s) \<and>
      Timer s' = Some (timer_period env (MaxIdleTime s))"
    if "CB_OnFree env p s = Inr s'" "MaxUnusedThreads s < length (Unused s) + 1"
    using that
    by (auto simp: CB_OnFree_def Let_def LOCK_GUARD_def SET_TIMER_def SetExpireTimer_def
        split: if_splits prod.splits)
  have 2: "timer_period env m = 4 * m div 3 \<and> m \<le> timer_period env m \<and>
      (m < timer_period env m) = (3 \<le> m)"
    if "0 \<le> m" "4 * m < 2 ^ (LONG_BITS env - 1)" for m
    using that(1) unfolding timer_period_exact [OF that] by presburger
  have 3: "IsExpired env' s' p"
    if "ExpireTimer (Heap s' p) = Some m" "m \<le> timer_period env m"
      "timer_period env m \<le> Elapsed env' p" for m
    using that by (simp add: IsExpired_def)
  have 4: "(\<forall>q\<in>set (Unused s). ExpireTimer (Heap s'' q) = Some 0) \<and> Timer s'' = None"
    if "StopUnused env s = Inr s''"
    using that by (rule StopUnused_deadlines)
  from 1 2 [of "MaxIdleTime s"] 3 [of "MaxIdleTime s"] 4 show ?thesis
    by blast
qed

theorem C7_deadline_and_period_witness:
  "\<not> isl (CB_OnFree env_ex 3 pool_expiring) \<and>
   MaxUnusedThreads pool_expiring < length (Unused pool_expiring) + 1 \<and>
   0 \<le> MaxIdleTime pool_expiring \<and>
   4 * MaxIdleTime pool_expiring < 2 ^ (LONG_BITS env_ex - 1) \<and>
   MaxIdleTime pool_expiring = 3000 \<and>
   ExpireTimer (Heap (projr (CB_OnFree env_ex 3 pool_expiring)) 3) = Some 3000 \<and>
   Timer (projr (CB_OnFree env_ex 3 pool_expiring)) = Some 4000 \<and>
   timer_period env_ex 3000 = 4000 \<and>
   timer_period env_ex 3000 \<le> Elapsed env_later 3 \<and>
   IsExpired env_later (projr (CB_OnFree env_ex 3 pool_expiring)) 3 \<and>
   \<not> IsExpired env_ex (projr (CB_OnFree env_ex 3 pool_expiring)) 3 \<and>
   \<not> isl (StopUnused env_ex pool_idle) \<and> Unused pool_idle = [1, 2] \<and>
   ExpireTimer (Heap (projr (StopUnused env_ex pool_idle)) 1) = Some 0 \<and>
   ExpireTimer (Heap (projr (StopUnused env_ex pool_idle)) 2) = Some 0 \<and>
   Timer (projr (StopUnused env_ex pool_idle)) = None"
proof -
  have 1: "\<not> isl (CB_OnFree env_ex 3 pool_expiring)"
    by (simp add: op_defs ex_defs)
  then have 2: "CB_OnFree env_ex 3 pool_expiring = Inr (projr (CB_OnFree env_ex 3 pool_expiring))"
    by simp
  have 3: "MaxUnusedThreads pool_expiring < length (Unused pool_expiring) + 1"
    "0 \<le> MaxIdleTime pool_expiring" "4 * MaxIdleTime pool_expiring < 2 ^ (LONG_BITS env_ex - 1)"
    "MaxIdleTime pool_expiring = 3000" "Elapsed env_later 3 = 4000" "Unused pool_idle = [1, 2]"
    by (simp_all add: ex_defs)
  have 4: "\<not> isl (StopUnused env_ex pool_idle)"
    by (simp add: op_defs ex_defs)
  then have 5: "StopUnused env_ex pool_idle = Inr (projr (StopUnused env_ex pool_idle))"
    by simp
  have 6: "\<not> IsExpired env_ex (projr (CB_OnFree env_ex 3 pool_expiring)) 3"
    by (simp add: op_defs ex_defs timer_period_def)
  note a = C7_deadline_and_period [of env_ex 3 pool_expiring
      "projr (CB_OnFree env_ex 3 pool_expiring)" env_later]
  note b = C7_deadline_and_period [of env_ex _ pool_idle _ _
      "projr (StopUnused env_ex pool_idle)"]
  from a 2 3 timer_period_3000
  have "ExpireTimer (Heap (projr (CB_OnFree env_ex 3 pool_expiring)) 3) = Some 3000"
    "Timer (projr (CB_OnFree env_ex 3 pool_expiring)) = Some 4000"
    "IsExpired env_later (projr (CB_OnFree env_ex 3 pool_expiring)) 3"
    by simp_all
  moreover from b 5 3(6)
  have "ExpireTimer (Heap (projr (StopUnused env_ex pool_idle)) 1) = Some 0"
    "ExpireTimer (Heap (projr (StopUnused env_ex pool_idle)) 2) = Some 0"
    "Timer (projr (StopUnused env_ex pool_idle)) = None"
    by simp_all
  ultimately show ?thesis
    using 1 3 4 6 timer_period_3000 by simp
qed

text \<open>
  Claim C7 as it was stated fails in two places. With an idle duration of 1 the idle
  callback sets the deadline to 1 and arms the timer with \<open>4 * 1 / 3 = 1\<close>, which is not
  longer than the deadline. And \<^verbatim>\<open>StopUnused\<close> gives every idle worker the deadline 0,
  whatever \<^verbatim>\<open>MaxIdleTime\<close> is (here 3000), and leaves the timer cancelled.
\<close>

theorem C7_counterexample:
  "\<not> isl (CB_OnFree env_ex 1 pool_short) \<and>
   MaxIdleTime pool_short = 1 \<and>
   ExpireTimer (Heap (projr (CB_OnFree env_ex 1 pool_short)) 1) = Some 1 \<and>
   Timer (projr (CB_OnFree env_ex 1 pool_short)) = Some 1 \<and>
   \<not> MaxIdleTime pool_short < timer_period env_ex (MaxIdleTime pool_short) \<and>
   \<not> isl (StopUnused env_ex pool_idle) \<and>
   MaxIdleTime pool_idle = 3000 \<and>
   ExpireTimer (Heap (projr (StopUnused env_ex pool_idle)) 1) = Some 0 \<and>
   Timer (projr (StopUnused env_ex pool_idle)) = None"
proof -
  have "timer_period env_ex 1 = 1"
    by (simp add: timer_period_exact env_ex_def)
  then show ?thesis
    by (simp add: op_defs ex_defs)
qed

text \<open>
  Claim C8. A sweep that is given a caller never stops this worker and never removes it
  from either collection, also when its deadline has elapsed: the worker object and the
  number of its places in \<^verbatim>\<open>Unused\<close> and in \<^verbatim>\<open>All\<close> are as before. When the pool is
  not stopping, the scan goes on past the caller, so that afterwards no worker other than
  the caller is left expired in \<^verbatim>\<open>Unused\<close>; and when the caller was in \<^verbatim>\<open>Unused\<close> with
  its deadline elapsed, the shared timer is armed again after the scan.
\<close>

theorem C8_caller_excluded:
  "Locked_StopExpired env (Some c) s = Inr s' \<Longrightarrow>
     count_list (Unused s') c = count_list (Unused s) c \<and>
     count_list (AllW s') c = count_list (AllW s) c \<and>
     Heap s' c = Heap s c \<and>
     (\<not> Stopping s \<longrightarrow> (\<forall>e\<in>set (Unused s'). IsExpired env s' e \<longrightarrow> e = c)) \<and>
     (\<not> Stopping s \<and> c \<in> set (Unused s) \<and> IsExpired env s c \<longrightarrow>
        Timer s' = Some (timer_period env (MaxIdleTime s)))"
proof -
  assume a: "Locked_StopExpired env (Some c) s = Inr s'"
  note k = Locked_StopExpired_keep [OF a disjI1 [OF refl]]
  from a have "(\<not> Stopping s \<longrightarrow> (\<forall>e\<in>set (Unused s'). IsExpired env s' e \<longrightarrow> e = c)) \<and>
      (\<not> Stopping s \<and> c \<in> set (Unused s) \<and> IsExpired env s c \<longrightarrow>
        Timer s' = Some (timer_period env (MaxIdleTime s)))"
  proof (cases rule: Locked_StopExpired_cases)
    case stopping
    then show ?thesis by simp
  next
    case (swept st' s1)
    note f = sweep_fields [OF swept(2)] and l = sweep_final [OF swept(2)]
    have x: "IsExpired env s' e = IsExpired env s1 e" for e
      using swept(3) by (simp add: IsExpired_def SET_TIMER_def)
    have u: "Unused s' = Unused s1" "MaxIdleTime s' = MaxIdleTime s1"
      using swept(3) by (simp_all add: SET_TIMER_def)
    have 1: "\<forall>e\<in>set (Unused s'). IsExpired env s' e \<longrightarrow> e = c"
      using l u(1) x by auto
    have 2: "Timer s' = Some (timer_period env (MaxIdleTime s))"
      if c: "c \<in> set (Unused s)" "IsExpired env s c"
    proof -
      from c(1) have "count_list (Unused s) c \<noteq> 0"
        by (simp add: count_list_0_iff)
      with k have "count_list (Unused s') c \<noteq> 0"
        by simp
      then have "c \<in> set (Unused s1)"
        using u(1) by (simp add: count_list_0_iff)
      moreover from c(2) f have "IsExpired env s1 c"
        by (simp add: IsExpired_def)
      ultimately have st'
        using l by blast
      with swept(3) f show ?thesis
        by (simp add: SET_TIMER_def)
    qed
    from 1 2 show ?thesis by blast
  qed
  with k show ?thesis by blast
qed

theorem C8_caller_excluded_witness:
  "\<not> isl (Locked_StopExpired env_ex (Some 1) pool_expiring) \<and>
   \<not> Stopping pool_expiring \<and> 1 \<in> set (Unused pool_expiring) \<and>
   IsExpired env_ex pool_expiring 1 \<and> IsExpired env_ex pool_expiring 2 \<and>
   Unused pool_expiring = [1, 2] \<and> AllW pool_expiring = [1, 2, 3] \<and>
   Unused (projr (Locked_StopExpired env_ex (Some 1) pool_expiring)) = [1] \<and>
   AllW (projr (Locked_StopExpired env_ex (Some 1) pool_expiring)) = [1, 3] \<and>
   Heap (projr (Locked_StopExpired env_ex (Some 1) pool_expiring)) 1 = Heap pool_expiring 1 \<and>
   StopCalls (Heap (projr (Locked_StopExpired env_ex (Some 1) pool_expiring)) 2) = 1 \<and>
   Timer (projr (Locked_StopExpired env_ex (Some 1) pool_expiring)) = Some 4000"
proof -
  have 1: "\<not> isl (Locked_StopExpired env_ex (Some 1) pool_expiring)"
    by (simp add: op_defs ex_defs)
  then have 2: "Locked_StopExpired env_ex (Some 1) pool_expiring =
      Inr (projr (Locked_StopExpired env_ex (Some 1) pool_expiring))"
    by simp
  have 3: "\<not> Stopping pool_expiring" "1 \<in> set (Unused pool_expiring)"
    "IsExpired env_ex pool_expiring 1" "IsExpired env_ex pool_expiring 2"
    "Unused pool_expiring = [1, 2]" "AllW pool_expiring = [1, 2, 3]"
    "MaxIdleTime pool_expiring = 3000"
    by (simp_all add: IsExpired_def ex_defs)
  have 4: "Unused (projr (Locked_StopExpired env_ex (Some 1) pool_expiring)) = [1]"
    "AllW (projr (Locked_StopExpired env_ex (Some 1) pool_expiring)) = [1, 3]"
    "StopCalls (Heap (projr (Locked_StopExpired env_ex (Some 1) pool_expiring)) 2) = 1"
    by (simp_all add: op_defs ex_defs)
  from C8_caller_excluded [OF 2] 1 3 4 timer_period_3000 show ?thesis
    by simp
qed

text \<open>
  Claim C9. In \<^verbatim>\<open>Stop()\<close>, for a pool that satisfies the invariant of the collections
  and in which no worker is busy (every worker in \<^verbatim>\<open>All\<close> is in \<^verbatim>\<open>Unused\<close>), the two
  sizes are equal where the assertion is evaluated, and \<^verbatim>\<open>Stop()\<close> completes. Whenever
  \<^verbatim>\<open>Stop()\<close> completes, both collections are empty and the total and unused counters
  are zero.
\<close>

theorem C9_Stop_assertion:
  "(pool_inv s \<and> set (AllW s) \<subseteq> set (Unused s) \<longrightarrow>
      length (AllW (Stop_locked env s)) = length (Unused (Stop_locked env s)) \<and>
      Stop env s = Inr (Stop_clear (Stop_locked env s))) \<and>
   (Stop env s = Inr s' \<longrightarrow>
      AllW s' = [] \<and> Unused s' = [] \<and> ThreadsTotal s' = 0 \<and> ThreadsUnused s' = 0)"
proof -
  have "length (AllW (Stop_locked env s)) = length (Unused (Stop_locked env s)) \<and>
      Stop env s = Inr (Stop_clear (Stop_locked env s))"
    if i: "pool_inv s" and b: "set (AllW s) \<subseteq> set (Unused s)"
  proof -
    from i b have "set (AllW s) = set (Unused s)"
      by (auto simp: pool_inv_def)
    then have "card (set (AllW s)) = card (set (Unused s))"
      by simp
    with i have "length (AllW s) = length (Unused s)"
      by (simp add: pool_inv_def distinct_card)
    then show ?thesis
      by (simp add: Stop_def Let_def Stop_locked_lists)
  qed
  with Stop_result [of env s s'] show ?thesis
    by blast
qed

theorem C9_Stop_assertion_witness:
  "pool_inv pool_idle \<and> set (AllW pool_idle) \<subseteq> set (Unused pool_idle) \<and>
   length (AllW (Stop_locked env_ex pool_idle)) = length (Unused (Stop_locked env_ex pool_idle)) \<and>
   Stop env_ex pool_idle = Inr (Stop_clear (Stop_locked env_ex pool_idle)) \<and>
   AllW (Stop_clear (Stop_locked env_ex pool_idle)) = [] \<and>
   Unused (Stop_clear (Stop_locked env_ex pool_idle)) = [] \<and>
   ThreadsTotal (Stop_clear (Stop_locked env_ex pool_idle)) = 0 \<and>
   ThreadsUnused (Stop_clear (Stop_locked env_ex pool_idle)) = 0 \<and>
   ThreadsStopped (Stop_clear (Stop_locked env_ex pool_idle)) = 2"
proof -
  have h: "pool_inv pool_idle" "set (AllW pool_idle) \<subseteq> set (Unused pool_idle)"
    by (simp_all add: pool_inv_def ex_defs)
  have c: "ThreadsStopped (Stop_clear (Stop_locked env_ex pool_idle)) = 2"
    by (simp add: op_defs ex_defs)
  from C9_Stop_assertion [of pool_idle env_ex "Stop_clear (Stop_locked env_ex pool_idle)"] h c
  show ?thesis
    by simp
qed

text \<open>
  Claim C10. In a state with the stopping flag set, the eviction sweep cancels the shared
  timer and returns: no worker is stopped, and \<^verbatim>\<open>All\<close>, \<^verbatim>\<open>Unused\<close>, the stopped count
  and the two size counters are as before. The state it returns is the one it was given
  with the timer cancelled.
\<close>

theorem C10_sweep_when_stopping:
  "Stopping s \<Longrightarrow> Locked_StopExpired env caller s = Inr (s\<lparr>Timer := None\<rparr>)"
  by (simp add: Locked_StopExpired_def)

theorem C10_sweep_when_stopping_witness:
  "Stopping (SetStopping env_ex pool_expiring) \<and>
   Timer (SetStopping env_ex pool_expiring) = Some 4000 \<and>
   IsExpired env_ex (SetStopping env_ex pool_expiring) 2 \<and>
   Locked_StopExpired env_ex (Some 1) (SetStopping env_ex pool_expiring) =
     Inr ((SetStopping env_ex pool_expiring)\<lparr>Timer := None\<rparr>)"
proof -
  have h: "Stopping (SetStopping env_ex pool_expiring)"
    by (simp add: SetStopping_def)
  have "Timer (SetStopping env_ex pool_expiring) = Some 4000"
    "IsExpired env_ex (SetStopping env_ex pool_expiring) 2"
    by (simp_all add: SetStopping_def LOCK_GUARD_def IsExpired_def ex_defs)
  with C10_sweep_when_stopping [OF h, of env_ex "Some 1"] h show ?thesis
    by simp
qed

end
